theory Spec2Isabelle
  imports Complex_Main "HOL-Library.Stream"
begin

section \<open>Dreamy Garden: the game engine of game.js\<close>

text \<open>
  A shallow embedding of the state-changing part of \<^verbatim>\<open>game.js\<close>: the global object
  \<^verbatim>\<open>gs\<close>, the particle and floating-text pools, item placement, the tick, the key and
  button handlers and the frame callback. Drawing code and writes to DOM elements
  (score labels, overlay, shake class, timers that only touch the DOM) change nothing in
  \<^verbatim>\<open>gs\<close> and are left out.

  JavaScript numbers are modelled as \<open>int\<close> where the code only ever holds integers (grid
  coordinates, scores) and as \<open>real\<close> where it holds fractions (pixel positions, particle
  life, time stamps); rounding of doubles is not modelled.
\<close>

subsection \<open>Constants\<close>

definition GRID :: int where "GRID = 20"
definition CELL :: int where "CELL = 25"
definition SIZE :: int where "SIZE = GRID * CELL"
definition MOVE_MS :: real where "MOVE_MS = 140"
definition MAX_PART :: nat where "MAX_PART = 50"

record mushroom =
  cap :: string
  under :: string
  stem :: string
  spot :: string
  glow :: string

definition MUSHROOMS :: "mushroom list" where
  "MUSHROOMS =
    [\<lparr>cap = ''#e84040'', under = ''#b52f2f'', stem = ''#f5ead7'', spot = ''#ffffff'', glow = ''#ff8080''\<rparr>,
     \<lparr>cap = ''#9333ea'', under = ''#6b21a8'', stem = ''#ede9fe'', spot = ''#f3e8ff'', glow = ''#c084fc''\<rparr>,
     \<lparr>cap = ''#2563eb'', under = ''#1d4ed8'', stem = ''#eff6ff'', spot = ''#dbeafe'', glow = ''#7dd3fc''\<rparr>,
     \<lparr>cap = ''#ea580c'', under = ''#c2410c'', stem = ''#fff7ed'', spot = ''#ffedd5'', glow = ''#fdba74''\<rparr>,
     \<lparr>cap = ''#16a34a'', under = ''#15803d'', stem = ''#f0fdf4'', spot = ''#dcfce7'', glow = ''#86efac''\<rparr>]"

definition SPARK_COLS :: "string list" where
  "SPARK_COLS = [''#f9a8d4'', ''#c084fc'', ''#86efac'', ''#7dd3fc'', ''#fbcfe8'', ''#ffffff'']"

subsection \<open>State\<close>

datatype phase = Idle | Playing | Paused | Dead

datatype error = TypeError

record vec =
  x :: int
  y :: int

record segment =
  x :: int
  y :: int
  px :: int
  py :: int

record food =
  x :: int
  y :: int
  mush :: int

text \<open>The field \<^verbatim>\<open>size\<close> of a particle is \<open>psize\<close> here; \<open>color\<close> is \<open>None\<close> where
  the array read \<^verbatim>\<open>SPARK_COLS[i]\<close> is out of range (\<^verbatim>\<open>undefined\<close>).\<close>

record particle =
  x :: real
  y :: real
  vx :: real
  vy :: real
  psize :: real
  color :: "string option"
  life :: real
  decay :: real

record floatText =
  x :: real
  y :: real
  life :: real

text \<open>
  The key \<^verbatim>\<open>dg_best\<close> of \<^verbatim>\<open>localStorage\<close>. \<open>accessible\<close> is false when access
  throws (the \<^verbatim>\<open>catch\<close> branches of \<^verbatim>\<open>loadBest\<close> and \<^verbatim>\<open>saveBest\<close>). \<open>dg_best\<close> is the
  number that unary \<^verbatim>\<open>+\<close> reads from the stored string: \<open>None\<close> when the key is absent
  (\<^verbatim>\<open>+null\<close> is 0) or the string is not a number (\<^verbatim>\<open>NaN || 0\<close> is 0). The number is
  taken to be an integer, of either sign: \<^verbatim>\<open>saveBest\<close> writes integers, and nothing in
  \<^verbatim>\<open>loadBest\<close> looks at the sign.
\<close>

record storage =
  accessible :: bool
  dg_best :: "int option"

text \<open>
  The object \<^verbatim>\<open>gs\<close>, together with the two things outside it that the engine reads and
  writes: \<open>rng\<close>, the values that the coming calls of \<^verbatim>\<open>Math.random()\<close> return, in order,
  and \<open>store\<close>, the persistent score store.
\<close>

record state =
  phase :: phase
  snake :: "segment list"
  dir :: vec
  nextDir :: vec
  food :: food
  score :: int
  best :: int
  frame :: nat
  lastTick :: real
  particles :: "particle list"
  floatTexts :: "floatText list"
  dirLocked :: bool
  rng :: "real stream"
  store :: storage

definition gs :: "real stream \<Rightarrow> storage \<Rightarrow> state" where
  "gs rs st =
    \<lparr>phase = Idle, snake = [], dir = \<lparr>vec.x = 1, vec.y = 0\<rparr>,
     nextDir = \<lparr>vec.x = 1, vec.y = 0\<rparr>,
     food = \<lparr>food.x = 0, food.y = 0, mush = 0\<rparr>,
     score = 0, best = 0, frame = 0, lastTick = 0, particles = [], floatTexts = [],
     dirLocked = False, rng = rs, store = st\<rparr>"

subsection \<open>Utilities and the score store\<close>

text \<open>\<^verbatim>\<open>rndInt(n)\<close> is \<^verbatim>\<open>Math.floor(Math.random()*n)\<close>; \<open>u\<close> is the value drawn.\<close>

definition rndInt :: "int \<Rightarrow> real \<Rightarrow> int" where
  "rndInt n u = \<lfloor>u * of_int n\<rfloor>"

definition loadBest :: "storage \<Rightarrow> int" where
  "loadBest st =
    (if accessible st
     then (case dg_best st of None \<Rightarrow> 0 | Some v \<Rightarrow> if v = 0 then 0 else v)
     else 0)"

definition saveBest :: "int \<Rightarrow> storage \<Rightarrow> storage" where
  "saveBest n st = (if accessible st then st\<lparr>dg_best := Some n\<rparr> else st)"

subsection \<open>Particles and floating text\<close>

definition lookup :: "'a list \<Rightarrow> int \<Rightarrow> 'a option" where
  "lookup xs i = (if 0 \<le> i \<and> nat i < length xs then Some (xs ! nat i) else None)"

text \<open>\<^verbatim>\<open>spawnParticle\<close> draws five numbers: angle, speed, size, colour index, decay.\<close>

definition spawnParticle :: "real \<Rightarrow> real \<Rightarrow> bool \<Rightarrow> state \<Rightarrow> state" where
  "spawnParticle x0 y0 burst s =
    (let r = rng s;
         angle = (r !! 0) * pi * 2;
         spd = (if burst then 1.5 + (r !! 1) * 3.5 else 0.2 + (r !! 1) * 0.5);
         p = \<lparr>particle.x = x0, particle.y = y0,
              vx = cos angle * spd,
              vy = sin angle * spd - (if burst then 0 else 0.6),
              psize = (if burst then 2 + (r !! 2) * 3 else 1 + (r !! 2) * 2),
              color = lookup SPARK_COLS (rndInt (int (length SPARK_COLS)) (r !! 3)),
              particle.life = 1,
              decay = (if burst then 0.022 + (r !! 4) * 0.018 else 0.007 + (r !! 4) * 0.006)\<rparr>
     in s\<lparr>particles := particles s @ [p], rng := sdrop 5 r\<rparr>)"

fun spawnBurst :: "real \<Rightarrow> real \<Rightarrow> nat \<Rightarrow> state \<Rightarrow> state" where
  "spawnBurst cx cy 0 s = s"
| "spawnBurst cx cy (Suc n) s = spawnBurst cx cy n (spawnParticle cx cy True s)"

definition spawnFloat :: "real \<Rightarrow> real \<Rightarrow> state \<Rightarrow> state" where
  "spawnFloat cx cy s =
    s\<lparr>floatTexts := floatTexts s @ [\<lparr>floatText.x = cx, floatText.y = cy, floatText.life = 1\<rparr>]\<rparr>"

subsection \<open>Item placement\<close>

definition cell :: "segment \<Rightarrow> int \<times> int" where
  "cell g = (segment.x g, segment.y g)"

text \<open>
  The \<^verbatim>\<open>do ... while\<close> loop of \<^verbatim>\<open>placeFood\<close>. \<open>occ\<close> stands for the set of keys
  \<^verbatim>\<open>`${x},${y}`\<close> of the segments: a key determines its pair of integers and the pair its
  key. Each round draws \<open>x\<close>, then \<open>y\<close>. A loop that never leaves is the value \<open>None\<close>.
\<close>

partial_function (option) placeFood_loop ::
    "(int \<times> int) list \<Rightarrow> real stream \<Rightarrow> ((int \<times> int) \<times> real stream) option" where
  "placeFood_loop occ r =
    (let fx = rndInt GRID (shd r); fy = rndInt GRID (shd (stl r))
     in if (fx, fy) \<in> set occ then placeFood_loop occ (stl (stl r))
        else Some ((fx, fy), stl (stl r)))"

text \<open>The cell that round \<open>k\<close> of the loop draws (rounds counted from 0).\<close>

definition attempt :: "real stream \<Rightarrow> nat \<Rightarrow> int \<times> int" where
  "attempt r k = (rndInt GRID (r !! (2 * k)), rndInt GRID (r !! (2 * k + 1)))"





definition placeFood :: "state \<Rightarrow> state option" where
  "placeFood s =
    (case placeFood_loop (map cell (snake s)) (rng s) of
       None \<Rightarrow> None
     | Some ((fx, fy), r) \<Rightarrow>
         Some (s\<lparr>food := \<lparr>food.x = fx, food.y = fy,
                           mush = rndInt (int (length MUSHROOMS)) (shd r)\<rparr>,
                 rng := stl r\<rparr>))"

definition buildSnake :: "segment list" where
  "buildSnake =
    (let sx = GRID div 2; sy = GRID div 2
     in [\<lparr>segment.x = sx, segment.y = sy, px = sx, py = sy\<rparr>,
         \<lparr>segment.x = sx - 1, segment.y = sy, px = sx - 1, py = sy\<rparr>,
         \<lparr>segment.x = sx - 2, segment.y = sy, px = sx - 2, py = sy\<rparr>])"

subsection \<open>The tick\<close>

text \<open>\<^verbatim>\<open>die\<close> reads \<^verbatim>\<open>gs.snake[0]\<close>, which throws on an empty creature.\<close>

definition die :: "state \<Rightarrow> error + state" where
  "die s =
    (case snake s of
       [] \<Rightarrow> Inl TypeError
     | head # _ \<Rightarrow>
         Inr (spawnBurst (of_int (segment.x head * CELL) + of_int CELL / 2)
                         (of_int (segment.y head * CELL) + of_int CELL / 2) 35
                         (s\<lparr>phase := Dead\<rparr>)))"

text \<open>The self-collision loop, \<open>i\<close> from 0 to \<^verbatim>\<open>snake.length - 2\<close>.\<close>

definition selfHit :: "segment list \<Rightarrow> int \<Rightarrow> int \<Rightarrow> bool" where
  "selfHit sn nhx nhy =
    list_ex (\<lambda>g. segment.x g = nhx \<and> segment.y g = nhy) (take (length sn - 1) sn)"

text \<open>The body of the first loop of \<^verbatim>\<open>tick\<close>: a segment's cell becomes its previous cell.\<close>

definition savePrev :: "segment \<Rightarrow> segment" where
  "savePrev g = g\<lparr>px := segment.x g, py := segment.y g\<rparr>"

text \<open>The cascade loop, \<open>i\<close> from \<open>k\<close> down to 1, on the array in place.\<close>

fun cascade :: "nat \<Rightarrow> segment list \<Rightarrow> segment list" where
  "cascade 0 sn = sn"
| "cascade (Suc i) sn =
    cascade i (sn[Suc i := (sn ! Suc i)\<lparr>segment.x := segment.x (sn ! i),
                                         segment.y := segment.y (sn ! i)\<rparr>])"

text \<open>Step 6 of \<^verbatim>\<open>tick\<close>: the cascade loop, then the head takes the new cell.\<close>

definition advance :: "segment list \<Rightarrow> int \<Rightarrow> int \<Rightarrow> segment list" where
  "advance sn nhx nhy =
    (let sn' = cascade (length sn - 1) sn
     in sn'[0 := (sn' ! 0)\<lparr>segment.x := nhx, segment.y := nhy\<rparr>])"

text \<open>
  The body of \<^verbatim>\<open>if (ate) { ... }\<close>; \<open>fd\<close> is the item as \<^verbatim>\<open>tick\<close> read it on entry.
  \<^verbatim>\<open>tail\<close> is the last segment after the cascade.
\<close>

definition grow :: "food \<Rightarrow> state \<Rightarrow> state option" where
  "grow fd s =
    (let s1 = s\<lparr>score := score s + 1\<rparr>;
         s2 = (if score s1 > best s1
               then s1\<lparr>best := score s1, store := saveBest (score s1) (store s1)\<rparr>
               else s1);
         cx = of_int (food.x fd * CELL) + of_int CELL / 2;
         cy = of_int (food.y fd * CELL) + of_int CELL / 2;
         s3 = spawnBurst cx cy 16 s2;
         s4 = spawnFloat cx (cy - of_int CELL) s3;
         tail = last (snake s4);
         s5 = s4\<lparr>snake := snake s4 @
                 [\<lparr>segment.x = segment.x tail, segment.y = segment.y tail,
                   px = px tail, py = py tail\<rparr>]\<rparr>
     in placeFood s5)"

text \<open>
  \<^verbatim>\<open>tick\<close>: \<open>None\<close> when it never returns (item placement), \<open>Some (Inl TypeError)\<close> when
  it throws (\<^verbatim>\<open>snake[0].x\<close> on an empty creature), \<open>Some (Inr s')\<close> when it returns.
\<close>

definition tick :: "state \<Rightarrow> (error + state) option" where
  "tick s =
    (if phase s \<noteq> Playing then Some (Inr s)
     else
       let nd = nextDir s; fd = food s;
           s1 = s\<lparr>dir := nd, dirLocked := False, snake := map savePrev (snake s)\<rparr>
       in (case snake s1 of
             [] \<Rightarrow> Some (Inl TypeError)
           | head # _ \<Rightarrow>
               let nhx = segment.x head + vec.x nd;
                   nhy = segment.y head + vec.y nd
               in if nhx < 0 \<or> nhx \<ge> GRID \<or> nhy < 0 \<or> nhy \<ge> GRID then Some (die s1)
                  else if selfHit (snake s1) nhx nhy then Some (die s1)
                  else
                    let ate = (nhx = food.x fd \<and> nhy = food.y fd);
                        s2 = s1\<lparr>snake := advance (snake s1) nhx nhy\<rparr>
                    in if ate then map_option Inr (grow fd s2) else Some (Inr s2)))"

text \<open>\<open>now\<close> is the value \<^verbatim>\<open>performance.now()\<close> returns.\<close>

definition startGame :: "real \<Rightarrow> state \<Rightarrow> state option" where
  "startGame now s =
    placeFood (s\<lparr>phase := Playing, snake := buildSnake,
                  dir := \<lparr>vec.x = 1, vec.y = 0\<rparr>, nextDir := \<lparr>vec.x = 1, vec.y = 0\<rparr>,
                  score := 0, particles := [], floatTexts := [], dirLocked := False,
                  lastTick := now\<rparr>)"

subsection \<open>The per-frame update of the pools\<close>

text \<open>One particle's motion, gravity and decay, in the order of the loop body.\<close>

definition stepParticle :: "particle \<Rightarrow> particle" where
  "stepParticle p =
    p\<lparr>particle.x := particle.x p + vx p, particle.y := particle.y p + vy p,
      vy := vy p + 0.05, particle.life := particle.life p - decay p\<rparr>"

text \<open>
  The loop of \<^verbatim>\<open>updateParticles\<close>: \<open>updateParticles_loop k ps\<close> runs \<open>i\<close> from \<open>k - 1\<close>
  down to 0; \<^verbatim>\<open>splice(i,1)\<close> removes the element at \<open>i\<close>.
\<close>

fun updateParticles_loop :: "nat \<Rightarrow> particle list \<Rightarrow> particle list" where
  "updateParticles_loop 0 ps = ps"
| "updateParticles_loop (Suc i) ps =
    (let p = stepParticle (ps ! i)
     in updateParticles_loop i
          (if particle.life p \<le> 0 \<or> particle.y p < - 10
           then take i ps @ drop (Suc i) ps
           else ps[i := p]))"

definition updateParticles :: "state \<Rightarrow> state" where
  "updateParticles s =
    (let s1 = (if frame s mod 5 = 0 \<and> length (particles s) < MAX_PART
               then spawnParticle (shd (rng s) * of_int SIZE) (of_int SIZE + 5) False
                      (s\<lparr>rng := stl (rng s)\<rparr>)
               else s)
     in s1\<lparr>particles := updateParticles_loop (length (particles s1)) (particles s1)\<rparr>)"

definition stepFloat :: "floatText \<Rightarrow> floatText" where
  "stepFloat t = t\<lparr>floatText.y := floatText.y t - 1.4, floatText.life := floatText.life t - 0.028\<rparr>"

fun updateFloats_loop :: "nat \<Rightarrow> floatText list \<Rightarrow> floatText list" where
  "updateFloats_loop 0 ts = ts"
| "updateFloats_loop (Suc i) ts =
    (let t = stepFloat (ts ! i)
     in updateFloats_loop i
          (if floatText.life t \<le> 0 then take i ts @ drop (Suc i) ts else ts[i := t]))"

definition updateFloats :: "state \<Rightarrow> state" where
  "updateFloats s = s\<lparr>floatTexts := updateFloats_loop (length (floatTexts s)) (floatTexts s)\<rparr>"

subsection \<open>Input\<close>

definition keyToDir :: "string \<Rightarrow> vec option" where
  "keyToDir k =
    (if k = ''ArrowRight'' \<or> k = ''d'' \<or> k = ''D'' then Some \<lparr>vec.x = 1, vec.y = 0\<rparr>
     else if k = ''ArrowLeft'' \<or> k = ''a'' \<or> k = ''A'' then Some \<lparr>vec.x = - 1, vec.y = 0\<rparr>
     else if k = ''ArrowUp'' \<or> k = ''w'' \<or> k = ''W'' then Some \<lparr>vec.x = 0, vec.y = - 1\<rparr>
     else if k = ''ArrowDown'' \<or> k = ''s'' \<or> k = ''S'' then Some \<lparr>vec.x = 0, vec.y = 1\<rparr>
     else None)"

text \<open>The \<^verbatim>\<open>keydown\<close> listener; \<open>key\<close> is \<^verbatim>\<open>e.key\<close>.\<close>

definition keydown :: "string \<Rightarrow> real \<Rightarrow> state \<Rightarrow> state option" where
  "keydown key now s =
    (if (key = ''Enter'' \<or> key = '' '') \<and> phase s \<noteq> Playing \<and> phase s \<noteq> Paused
     then startGame now s
     else if (key = ''p'' \<or> key = ''P'' \<or> key = ''Escape'') \<and> phase s = Playing
     then Some (s\<lparr>phase := Paused\<rparr>)
     else if (key = ''p'' \<or> key = ''P'' \<or> key = ''Escape'' \<or> key = '' '') \<and> phase s = Paused
     then Some (s\<lparr>phase := Playing, lastTick := now\<rparr>)
     else if key = '' '' \<and> phase s = Playing
     then Some (s\<lparr>phase := Paused\<rparr>)
     else if phase s \<noteq> Playing \<or> dirLocked s then Some s
     else (case keyToDir key of
             None \<Rightarrow> Some s
           | Some nd \<Rightarrow>
               if vec.x nd \<noteq> 0 \<and> vec.x nd = - vec.x (dir s) then Some s
               else if vec.y nd \<noteq> 0 \<and> vec.y nd = - vec.y (dir s) then Some s
               else Some (s\<lparr>nextDir := nd, dirLocked := True\<rparr>)))"

text \<open>The \<^verbatim>\<open>click\<close> listener of the overlay button.\<close>

definition click :: "real \<Rightarrow> state \<Rightarrow> state option" where
  "click now s =
    (if phase s = Paused then Some (s\<lparr>phase := Playing, lastTick := now\<rparr>)
     else startGame now s)"

subsection \<open>The frame callback and a session\<close>

definition gameLoop :: "real \<Rightarrow> state \<Rightarrow> (error + state) option" where
  "gameLoop ts s =
    (let s1 = s\<lparr>frame := frame s + 1\<rparr>
     in (case (if phase s1 = Playing \<and> ts - lastTick s1 \<ge> MOVE_MS
               then tick (s1\<lparr>lastTick := ts\<rparr>) else Some (Inr s1)) of
           None \<Rightarrow> None
         | Some (Inl e) \<Rightarrow> Some (Inl e)
         | Some (Inr s2) \<Rightarrow> Some (Inr (updateFloats (updateParticles s2)))))"

text \<open>\<^verbatim>\<open>init\<close>, on the initial \<^verbatim>\<open>gs\<close>.\<close>

definition init :: "real stream \<Rightarrow> storage \<Rightarrow> state" where
  "init rs st = (gs rs st)\<lparr>best := loadBest st\<rparr>"

text \<open>
  What can happen to a running page: a frame (\<^verbatim>\<open>gameLoop(ts)\<close>), a key press, a click on
  the overlay button. \<open>Tick\<close> is a call of \<^verbatim>\<open>tick()\<close> on its own, so that sequences of
  ticks can be stated without time stamps.
\<close>

datatype event = Tick | Frame real | KeyDown string real | Click real

fun step :: "event \<Rightarrow> state \<Rightarrow> (error + state) option" where
  "step Tick s = tick s"
| "step (Frame ts) s = gameLoop ts s"
| "step (KeyDown key now) s = map_option Inr (keydown key now s)"
| "step (Click now) s = map_option Inr (click now s)"

fun run :: "event list \<Rightarrow> state \<Rightarrow> (error + state) option" where
  "run [] s = Some (Inr s)"
| "run (e # es) s =
    (case step e s of
       None \<Rightarrow> None
     | Some (Inl err) \<Rightarrow> Some (Inl err)
     | Some (Inr s') \<Rightarrow> run es s')"

text \<open>The states a session passes through, up to the first step that does not return.\<close>

fun trace :: "event list \<Rightarrow> state \<Rightarrow> state list" where
  "trace [] s = [s]"
| "trace (e # es) s =
    s # (case step e s of Some (Inr s') \<Rightarrow> trace es s' | _ \<Rightarrow> [])"

text \<open>
  The fields that decide how the game goes on; the pools, the frame counter, the tick
  anchor and the pending random numbers are not among them.
\<close>

definition core ::
    "state \<Rightarrow> phase \<times> segment list \<times> vec \<times> vec \<times> bool \<times> int \<times> int \<times> storage \<times> food" where
  "core s = (phase s, snake s, dir s, nextDir s, dirLocked s, score s, best s, store s, food s)"

text \<open>
  All segments but the last are on different cells, and the last one shares its cell
  with no segment other than the one before it.
\<close>

definition segments_apart :: "segment list \<Rightarrow> bool" where
  "segments_apart sn \<longleftrightarrow>
     distinct (map cell (butlast sn)) \<and>
     cell (last sn) \<notin> set (map cell (butlast (butlast sn)))"

text \<open>The four directions of \<^verbatim>\<open>keyToDir\<close>, and one direction being the reverse of another.\<close>

definition unit_vec :: "vec \<Rightarrow> bool" where
  "unit_vec d \<longleftrightarrow>
     d = \<lparr>vec.x = 1, vec.y = 0\<rparr> \<or> d = \<lparr>vec.x = - 1, vec.y = 0\<rparr> \<or>
     d = \<lparr>vec.x = 0, vec.y = - 1\<rparr> \<or> d = \<lparr>vec.x = 0, vec.y = 1\<rparr>"

definition reverse_of :: "vec \<Rightarrow> vec \<Rightarrow> bool" where
  "reverse_of a b \<longleftrightarrow> vec.x a = - vec.x b \<and> vec.y a = - vec.y b"

text \<open>
  An event that runs the body of \<^verbatim>\<open>tick\<close>: a call of \<^verbatim>\<open>tick()\<close> in phase playing, or a
  frame in phase playing that comes \<open>MOVE_MS\<close> or more after the tick anchor.
\<close>

fun ticks :: "event \<Rightarrow> state \<Rightarrow> bool" where
  "ticks Tick s = (phase s = Playing)"
| "ticks (Frame ts) s = (phase s = Playing \<and> ts - lastTick s \<ge> MOVE_MS)"
| "ticks (KeyDown key now) s = False"
| "ticks (Click now) s = False"

text \<open>
  An event between two ticks of a round: it neither runs the body of \<^verbatim>\<open>tick\<close> nor starts
  a round (a click starts one unless the game is paused; a key press can start one only
  in phase idle or dead, which a round leaves through a tick only).
\<close>

fun between :: "event \<Rightarrow> state \<Rightarrow> bool" where
  "between Tick s = (phase s \<noteq> Playing)"
| "between (Frame ts) s = (phase s \<noteq> Playing \<or> ts - lastTick s < MOVE_MS)"
| "between (KeyDown key now) s = True"
| "between (Click now) s = (phase s = Paused)"

text \<open>A stretch of a session in which every event is between two ticks.\<close>

fun quiet :: "event list \<Rightarrow> state \<Rightarrow> bool" where
  "quiet [] s = True"
| "quiet (e # es) s =
    (between e s \<and> (case step e s of Some (Inr s') \<Rightarrow> quiet es s' | _ \<Rightarrow> True))"

text \<open>What a session shows of the state it ends in, if it gets there.\<close>

definition cells_after :: "event list \<Rightarrow> state \<Rightarrow> (int \<times> int) list option" where
  "cells_after es s =
    (case run es s of Some (Inr s') \<Rightarrow> Some (map cell (snake s')) | _ \<Rightarrow> None)"

definition dir_after :: "event list \<Rightarrow> state \<Rightarrow> vec option" where
  "dir_after es s = (case run es s of Some (Inr s') \<Rightarrow> Some (dir s') | _ \<Rightarrow> None)"

definition best_after :: "event list \<Rightarrow> state \<Rightarrow> int option" where
  "best_after es s = (case run es s of Some (Inr s') \<Rightarrow> Some (best s') | _ \<Rightarrow> None)"

definition score_after :: "event list \<Rightarrow> state \<Rightarrow> int option" where
  "score_after es s = (case run es s of Some (Inr s') \<Rightarrow> Some (score s') | _ \<Rightarrow> None)"

subsection \<open>Concrete states\<close>

definition zeros :: "real stream" where
  "zeros = sconst 0"

definition empty_store :: storage where
  "empty_store = \<lparr>accessible = True, dg_best = None\<rparr>"

text \<open>A segment that moved from \<open>(a', b')\<close> to \<open>(a, b)\<close>.\<close>

definition seg :: "int \<Rightarrow> int \<Rightarrow> int \<Rightarrow> int \<Rightarrow> segment" where
  "seg a b a' b' = \<lparr>segment.x = a, segment.y = b, px = a', py = b'\<rparr>"

text \<open>Moving right along row 10 with the head in the last column.\<close>

definition at_wall :: state where
  "at_wall = (gs zeros empty_store)
     \<lparr>phase := Playing, snake := [seg 19 10 18 10, seg 18 10 17 10, seg 17 10 16 10],
      food := \<lparr>food.x = 5, food.y = 5, mush = 0\<rparr>\<rparr>"

text \<open>Five segments coiled clockwise, about to turn down into the fourth one.\<close>

definition coiled5 :: state where
  "coiled5 = (gs zeros empty_store)
     \<lparr>phase := Playing,
      snake := [seg 10 10 11 10, seg 11 10 11 11, seg 11 11 10 11, seg 10 11 9 11, seg 9 11 8 11],
      dir := \<lparr>vec.x = - 1, vec.y = 0\<rparr>, nextDir := \<lparr>vec.x = 0, vec.y = 1\<rparr>,
      dirLocked := True, score := 2, best := 2\<rparr>"

text \<open>Four segments in a square, the head about to step onto the cell the tail leaves.\<close>

definition coiled4 :: state where
  "coiled4 = (gs zeros empty_store)
     \<lparr>phase := Playing,
      snake := [seg 10 10 11 10, seg 11 10 11 11, seg 11 11 10 11, seg 10 11 9 11],
      dir := \<lparr>vec.x = - 1, vec.y = 0\<rparr>, nextDir := \<lparr>vec.x = 0, vec.y = 1\<rparr>,
      dirLocked := True, score := 1, best := 1\<rparr>"

text \<open>A fresh creature with the item in the cell ahead of the head.\<close>

definition before_item :: state where
  "before_item = (gs zeros empty_store)
     \<lparr>phase := Playing, snake := buildSnake,
      food := \<lparr>food.x = 11, food.y = 10, mush = 3\<rparr>\<rparr>"

text \<open>
  A creature of \<open>GRID * GRID\<close> segments that fills the grid: row 0 from left to right,
  row 1 from right to left, and so on.
\<close>

definition full_snake :: "segment list" where
  "full_snake =
    map (\<lambda>i. let r = int i div GRID;
                 c = (if even r then int i mod GRID else GRID - 1 - int i mod GRID)
             in seg c r c r)
        [0..<nat (GRID * GRID)]"


text \<open>The draws that put the first item in the cell ahead of a fresh creature.\<close>

definition ahead :: "real stream" where
  "ahead = 11 / 20 ## 1 / 2 ## zeros"

text \<open>The round that \<^verbatim>\<open>startGame\<close> sets up at time 0 when every draw is 0.\<close>

definition started :: state where
  "started = (init zeros empty_store)
     \<lparr>phase := Playing, snake := buildSnake,
      dir := \<lparr>vec.x = 1, vec.y = 0\<rparr>, nextDir := \<lparr>vec.x = 1, vec.y = 0\<rparr>,
      score := 0, particles := [], floatTexts := [], dirLocked := False, lastTick := 0,
      food := \<lparr>food.x = 0, food.y = 0, mush = 0\<rparr>, rng := zeros\<rparr>"

text \<open>The same round with the item ahead of the head.\<close>

definition started_ahead :: state where
  "started_ahead = started\<lparr>food := \<lparr>food.x = 11, food.y = 10, mush = 0\<rparr>\<rparr>"

text \<open>That round after an accepted request to turn up.\<close>

definition turned_up :: state where
  "turned_up = started\<lparr>nextDir := \<lparr>vec.x = 0, vec.y = - 1\<rparr>, dirLocked := True\<rparr>"

text \<open>A store whose entry reads as a negative number.\<close>

definition tampered :: storage where
  "tampered = \<lparr>accessible = True, dg_best = Some (- 3)\<rparr>"

text \<open>
  The visible area with margin, in the spec's words: the canvas \<open>[0, SIZE]\<close> in both
  axes, widened on every side by the 10 pixels that the code allows above the top edge.
\<close>

definition spec_visible_with_margin :: "particle \<Rightarrow> bool" where
  "spec_visible_with_margin p \<longleftrightarrow>
     - 10 \<le> particle.x p \<and> particle.x p \<le> of_int SIZE + 10 \<and>
     - 10 \<le> particle.y p \<and> particle.y p \<le> of_int SIZE + 10"

text \<open>A burst particle that has left the canvas on the left, before and after one frame.\<close>

definition drifting :: particle where
  "drifting = \<lparr>particle.x = - 100, particle.y = 250, vx = - 4, vy = 1, psize = 3,
               color = Some ''#ffffff'', particle.life = 1 / 2, decay = 1 / 32\<rparr>"

definition drifted :: particle where
  "drifted = \<lparr>particle.x = - 104, particle.y = 251, vx = - 4, vy = 21 / 20, psize = 3,
              color = Some ''#ffffff'', particle.life = 15 / 32, decay = 1 / 32\<rparr>"

definition with_drifting :: state where
  "with_drifting = started\<lparr>frame := 1, particles := [drifting]\<rparr>"

text \<open>
  The creature of \<open>full_snake\<close> without its first segment and with its last segment
  doubled: 400 segments on all cells but \<open>(0, 0)\<close>, the head on \<open>(1, 0)\<close> moving left,
  the item on \<open>(0, 0)\<close>.
\<close>

definition nearly_full :: state where
  "nearly_full = (gs zeros empty_store)
     \<lparr>phase := Playing, snake := tl full_snake @ [last full_snake],
      dir := \<lparr>vec.x = - 1, vec.y = 0\<rparr>, nextDir := \<lparr>vec.x = - 1, vec.y = 0\<rparr>,
      food := \<lparr>food.x = 0, food.y = 0, mush = 0\<rparr>, score := 397, best := 397\<rparr>"



section \<open>Which fields each operation leaves alone\<close>

lemma spawnParticle_fields [simp]:
  "phase (spawnParticle a b c s) = phase s"
  "snake (spawnParticle a b c s) = snake s"
  "dir (spawnParticle a b c s) = dir s"
  "nextDir (spawnParticle a b c s) = nextDir s"
  "food (spawnParticle a b c s) = food s"
  "score (spawnParticle a b c s) = score s"
  "best (spawnParticle a b c s) = best s"
  "frame (spawnParticle a b c s) = frame s"
  "lastTick (spawnParticle a b c s) = lastTick s"
  "floatTexts (spawnParticle a b c s) = floatTexts s"
  "dirLocked (spawnParticle a b c s) = dirLocked s"
  "store (spawnParticle a b c s) = store s"
  "rng (spawnParticle a b c s) = sdrop 5 (rng s)"
  "length (particles (spawnParticle a b c s)) = Suc (length (particles s))"
  by (simp_all add: spawnParticle_def Let_def)

lemma spawnBurst_fields [simp]:
  "phase (spawnBurst a b n s) = phase s"
  "snake (spawnBurst a b n s) = snake s"
  "dir (spawnBurst a b n s) = dir s"
  "nextDir (spawnBurst a b n s) = nextDir s"
  "food (spawnBurst a b n s) = food s"
  "score (spawnBurst a b n s) = score s"
  "best (spawnBurst a b n s) = best s"
  "frame (spawnBurst a b n s) = frame s"
  "lastTick (spawnBurst a b n s) = lastTick s"
  "floatTexts (spawnBurst a b n s) = floatTexts s"
  "dirLocked (spawnBurst a b n s) = dirLocked s"
  "store (spawnBurst a b n s) = store s"
  by (induction n arbitrary: s, simp_all)

lemma spawnBurst_rng [simp]: "rng (spawnBurst a b n s) = sdrop (5 * n) (rng s)"
proof (induction n arbitrary: s)
  case 0
  show ?case by simp
next
  case (Suc n)
  have "rng (spawnBurst a b (Suc n) s) = sdrop (5 * n) (sdrop 5 (rng s))"
    using Suc [of "spawnParticle a b True s"] by simp
  also have "\<dots> = sdrop (5 + 5 * n) (rng s)"
    by (rule sdrop_add)
  also have "5 + 5 * n = 5 * Suc n"
    by simp
  finally show ?case .
qed

lemma spawnFloat_fields [simp]:
  "phase (spawnFloat a b s) = phase s"
  "snake (spawnFloat a b s) = snake s"
  "dir (spawnFloat a b s) = dir s"
  "nextDir (spawnFloat a b s) = nextDir s"
  "food (spawnFloat a b s) = food s"
  "score (spawnFloat a b s) = score s"
  "best (spawnFloat a b s) = best s"
  "frame (spawnFloat a b s) = frame s"
  "lastTick (spawnFloat a b s) = lastTick s"
  "particles (spawnFloat a b s) = particles s"
  "dirLocked (spawnFloat a b s) = dirLocked s"
  "store (spawnFloat a b s) = store s"
  "rng (spawnFloat a b s) = rng s"
  by (simp_all add: spawnFloat_def)

lemma updateParticles_fields [simp]:
  "phase (updateParticles s) = phase s"
  "snake (updateParticles s) = snake s"
  "dir (updateParticles s) = dir s"
  "nextDir (updateParticles s) = nextDir s"
  "food (updateParticles s) = food s"
  "score (updateParticles s) = score s"
  "best (updateParticles s) = best s"
  "frame (updateParticles s) = frame s"
  "lastTick (updateParticles s) = lastTick s"
  "floatTexts (updateParticles s) = floatTexts s"
  "dirLocked (updateParticles s) = dirLocked s"
  "store (updateParticles s) = store s"
  by (simp_all add: updateParticles_def Let_def)

lemma updateFloats_fields [simp]:
  "phase (updateFloats s) = phase s"
  "snake (updateFloats s) = snake s"
  "dir (updateFloats s) = dir s"
  "nextDir (updateFloats s) = nextDir s"
  "food (updateFloats s) = food s"
  "score (updateFloats s) = score s"
  "best (updateFloats s) = best s"
  "frame (updateFloats s) = frame s"
  "lastTick (updateFloats s) = lastTick s"
  "particles (updateFloats s) = particles s"
  "dirLocked (updateFloats s) = dirLocked s"
  "store (updateFloats s) = store s"
  "rng (updateFloats s) = rng s"
  by (simp_all add: updateFloats_def)

lemma placeFood_fields:
  assumes "placeFood s = Some s'"
  shows "phase s' = phase s" "snake s' = snake s" "dir s' = dir s" "nextDir s' = nextDir s"
    "score s' = score s" "best s' = best s" "frame s' = frame s" "lastTick s' = lastTick s"
    "particles s' = particles s" "floatTexts s' = floatTexts s" "dirLocked s' = dirLocked s"
    "store s' = store s"
  using assms by (auto simp: placeFood_def split: option.splits prod.splits)

section \<open>The cascade\<close>

lemma cell_savePrev [simp]: "cell (savePrev g) = cell g"
  by (simp add: cell_def savePrev_def)

lemma cell_comp_savePrev [simp]: "cell \<circ> savePrev = cell"
  by (rule ext) simp

lemma cells_savePrev [simp]: "map cell (map savePrev sn) = map cell sn"
  by simp

lemma length_cascade [simp]: "length (cascade k sn) = length sn"
  by (induction k arbitrary: sn) simp_all

lemma cascade_nth:
  "k < length sn \<Longrightarrow> j < length sn \<Longrightarrow>
   cascade k sn ! j =
     (if 1 \<le> j \<and> j \<le> k
      then (sn ! j)\<lparr>segment.x := segment.x (sn ! (j - 1)), segment.y := segment.y (sn ! (j - 1))\<rparr>
      else sn ! j)"
proof (induction k arbitrary: sn)
  case 0
  then show ?case by simp
next
  case (Suc k)
  let ?sn = "sn[Suc k := (sn ! Suc k)\<lparr>segment.x := segment.x (sn ! k), segment.y := segment.y (sn ! k)\<rparr>]"
  have "k < length ?sn" "j < length ?sn"
    using Suc.prems by simp_all
  from Suc.IH [OF this] Suc.prems show ?case
    by (auto simp: nth_list_update)
qed

lemma length_advance [simp]: "length (advance sn a b) = length sn"
  by (simp add: advance_def Let_def)

lemma advance_nth:
  assumes "j < length sn"
  shows "advance sn a b ! j =
     (if j = 0 then (sn ! 0)\<lparr>segment.x := a, segment.y := b\<rparr>
      else (sn ! j)\<lparr>segment.x := segment.x (sn ! (j - 1)), segment.y := segment.y (sn ! (j - 1))\<rparr>)"
proof -
  have k: "length sn - 1 < length sn" using assms by (cases sn) auto
  have z: "0 < length sn" using assms by (cases sn) auto
  show ?thesis
    using assms cascade_nth [OF k assms] cascade_nth [OF k z]
    by (auto simp: advance_def Let_def nth_list_update)
qed

lemma cells_advance:
  assumes "sn \<noteq> []"
  shows "map cell (advance sn a b) = (a, b) # map cell (butlast sn)"
proof (rule nth_equalityI)
  show "length (map cell (advance sn a b)) = length ((a, b) # map cell (butlast sn))"
    using assms by simp
next
  fix i assume "i < length (map cell (advance sn a b))"
  then have i: "i < length sn" by simp
  show "map cell (advance sn a b) ! i = ((a, b) # map cell (butlast sn)) ! i"
  proof (cases i)
    case 0
    with i show ?thesis by (simp add: advance_nth cell_def)
  next
    case (Suc j)
    with i have "j < length (butlast sn)" by simp
    with i Suc show ?thesis by (simp add: advance_nth cell_def nth_butlast)
  qed
qed

section \<open>Item placement\<close>

lemma rndInt_range:
  assumes "0 \<le> u" "u < 1" "0 < n"
  shows "0 \<le> rndInt n u \<and> rndInt n u < n"
proof -
  have "0 \<le> u * of_int n" using assms by simp
  moreover have "u * of_int n < of_int n" using assms by simp
  ultimately show ?thesis
    unfolding rndInt_def by (simp add: floor_less_iff)
qed

lemma attempt_0: "attempt r 0 = (rndInt GRID (shd r), rndInt GRID (shd (stl r)))"
  by (simp add: attempt_def)

lemma attempt_Suc: "attempt r (Suc k) = attempt (stl (stl r)) k"
  by (simp add: attempt_def)

lemma placeFood_loop_hit:
  "attempt r k \<notin> set occ \<Longrightarrow> (\<forall>j<k. attempt r j \<in> set occ) \<Longrightarrow>
   placeFood_loop occ r = Some (attempt r k, sdrop (2 * k + 2) r)"
proof (induction k arbitrary: r)
  case 0
  then show ?case
    by (subst placeFood_loop.simps) (simp add: attempt_0 Let_def)
next
  case (Suc k)
  have first: "attempt r 0 \<in> set occ" using Suc.prems(2) by blast
  have "attempt (stl (stl r)) k \<notin> set occ"
    using Suc.prems(1) by (simp add: attempt_Suc)
  moreover have "\<forall>j<k. attempt (stl (stl r)) j \<in> set occ"
    using Suc.prems(2) by (metis Suc_less_eq attempt_Suc)
  ultimately have "placeFood_loop occ (stl (stl r)) =
      Some (attempt (stl (stl r)) k, sdrop (2 * k + 2) (stl (stl r)))"
    by (rule Suc.IH)
  moreover have "placeFood_loop occ r = placeFood_loop occ (stl (stl r))"
    using first by (subst placeFood_loop.simps) (simp add: attempt_0 Let_def)
  ultimately show ?case
    by (simp add: attempt_Suc)
qed

lemma placeFood_loop_Some:
  assumes "placeFood_loop occ r = Some res"
  shows "\<exists>k. res = (attempt r k, sdrop (2 * k + 2) r) \<and> attempt r k \<notin> set occ \<and>
       (\<forall>j<k. attempt r j \<in> set occ)"
proof (rule placeFood_loop.raw_induct
    [where P = "\<lambda>occ r res. \<exists>k. res = (attempt r k, sdrop (2 * k + 2) r) \<and>
       attempt r k \<notin> set occ \<and> (\<forall>j<k. attempt r j \<in> set occ)", OF _ assms])
  fix loop :: "(int \<times> int) list \<Rightarrow> real stream \<Rightarrow> ((int \<times> int) \<times> real stream) option"
  fix occ r res
  assume IH: "\<And>occ r res. loop occ r = Some res \<Longrightarrow>
      \<exists>k. res = (attempt r k, sdrop (2 * k + 2) r) \<and> attempt r k \<notin> set occ \<and>
       (\<forall>j<k. attempt r j \<in> set occ)"
  assume body: "(let fx = rndInt GRID (shd r); fy = rndInt GRID (shd (stl r))
      in if (fx, fy) \<in> set occ then loop occ (stl (stl r))
         else Some ((fx, fy), stl (stl r))) = Some res"
  show "\<exists>k. res = (attempt r k, sdrop (2 * k + 2) r) \<and> attempt r k \<notin> set occ \<and>
       (\<forall>j<k. attempt r j \<in> set occ)"
  proof (cases "attempt r 0 \<in> set occ")
    case False
    with body have "res = (attempt r 0, sdrop (2 * 0 + 2) r)"
      by (auto simp: attempt_0 Let_def numeral_2_eq_2)
    with False show ?thesis by blast
  next
    case True
    with body have "loop occ (stl (stl r)) = Some res"
      by (simp add: attempt_0 Let_def)
    from IH [OF this] obtain k where
      k: "res = (attempt (stl (stl r)) k, sdrop (2 * k + 2) (stl (stl r)))"
         "attempt (stl (stl r)) k \<notin> set occ"
         "\<forall>j<k. attempt (stl (stl r)) j \<in> set occ"
      by blast
    have "\<forall>j<Suc k. attempt r j \<in> set occ"
    proof (intro allI impI)
      fix j assume "j < Suc k"
      then show "attempt r j \<in> set occ"
        using True k(3) by (cases j) (simp_all add: attempt_Suc)
    qed
    with k(1,2) have "res = (attempt r (Suc k), sdrop (2 * Suc k + 2) r) \<and>
        attempt r (Suc k) \<notin> set occ \<and> (\<forall>j<Suc k. attempt r j \<in> set occ)"
      by (simp add: attempt_Suc)
    then show ?thesis by blast
  qed
qed

lemma placeFood_loop_None_iff:
  "placeFood_loop occ r = None \<longleftrightarrow> (\<forall>k. attempt r k \<in> set occ)"
proof
  assume none: "placeFood_loop occ r = None"
  show "\<forall>k. attempt r k \<in> set occ"
  proof (rule ccontr)
    assume "\<not> (\<forall>k. attempt r k \<in> set occ)"
    then obtain k where "attempt r k \<notin> set occ" by blast
    then obtain m where "attempt r m \<notin> set occ" "\<forall>j<m. attempt r j \<in> set occ"
      using exists_least_iff [of "\<lambda>k. attempt r k \<notin> set occ"] by blast
    from placeFood_loop_hit [OF this] none show False by simp
  qed
next
  assume all: "\<forall>k. attempt r k \<in> set occ"
  show "placeFood_loop occ r = None"
  proof (cases "placeFood_loop occ r")
    case (Some res)
    from placeFood_loop_Some [OF this] all show ?thesis by blast
  qed simp
qed

lemma placeFood_Some:
  assumes "placeFood s = Some s'"
  shows "\<exists>k. attempt (rng s) k \<notin> set (map cell (snake s)) \<and>
             (\<forall>j<k. attempt (rng s) j \<in> set (map cell (snake s))) \<and>
             s' = s\<lparr>food := \<lparr>food.x = fst (attempt (rng s) k), food.y = snd (attempt (rng s) k),
                              mush = rndInt (int (length MUSHROOMS)) (rng s !! (2 * k + 2))\<rparr>,
                     rng := sdrop (2 * k + 3) (rng s)\<rparr>"
proof -
  from assms obtain res where
    res: "placeFood_loop (map cell (snake s)) (rng s) = Some res"
    by (auto simp: placeFood_def split: option.splits)
  from placeFood_loop_Some [OF res] obtain k where
    k: "res = (attempt (rng s) k, sdrop (2 * k + 2) (rng s))"
       "attempt (rng s) k \<notin> set (map cell (snake s))"
       "\<forall>j<k. attempt (rng s) j \<in> set (map cell (snake s))"
    by blast
  have "s' = s\<lparr>food := \<lparr>food.x = fst (attempt (rng s) k), food.y = snd (attempt (rng s) k),
                              mush = rndInt (int (length MUSHROOMS)) (rng s !! (2 * k + 2))\<rparr>,
                     rng := sdrop (2 * k + 3) (rng s)\<rparr>"
  proof -
    have "stl (sdrop (2 * k + 2) (rng s)) = sdrop (Suc (2 * k + 2)) (rng s)"
      by (rule sdrop_simps(2))
    moreover have "Suc (2 * k + 2) = 2 * k + 3" by simp
    ultimately have tl: "stl (sdrop (2 * k + 2) (rng s)) = sdrop (2 * k + 3) (rng s)"
      by (simp only:)
    have hd: "shd (sdrop (2 * k + 2) (rng s)) = rng s !! (2 * k + 2)"
      by (rule sdrop_simps(1))
    from assms res k(1) have
      "s' = s\<lparr>food := \<lparr>food.x = fst (attempt (rng s) k), food.y = snd (attempt (rng s) k),
                mush = rndInt (int (length MUSHROOMS)) (shd (sdrop (2 * k + 2) (rng s)))\<rparr>,
               rng := stl (sdrop (2 * k + 2) (rng s))\<rparr>"
      by (auto simp add: placeFood_def split: prod.splits)
    then show ?thesis by (simp only: tl hd)
  qed
  with k(2,3) show ?thesis by blast
qed

lemma placeFood_free:
  assumes "placeFood s = Some s'"
  shows "(food.x (food s'), food.y (food s')) \<notin> set (map cell (snake s'))"
proof -
  from placeFood_Some [OF assms] obtain k where
    "attempt (rng s) k \<notin> set (map cell (snake s))"
    "s' = s\<lparr>food := \<lparr>food.x = fst (attempt (rng s) k), food.y = snd (attempt (rng s) k),
                              mush = rndInt (int (length MUSHROOMS)) (rng s !! (2 * k + 2))\<rparr>,
                     rng := sdrop (2 * k + 3) (rng s)\<rparr>"
    by blast
  then show ?thesis by simp
qed

lemma placeFood_returns_iff:
  "(\<exists>s'. placeFood s = Some s') \<longleftrightarrow> (\<exists>k. attempt (rng s) k \<notin> set (map cell (snake s)))"
proof -
  have "(\<exists>s'. placeFood s = Some s') \<longleftrightarrow> placeFood_loop (map cell (snake s)) (rng s) \<noteq> None"
    by (auto simp: placeFood_def split: option.splits prod.splits)
  then show ?thesis
    by (simp add: placeFood_loop_None_iff)
qed

section \<open>The four ways through a tick\<close>

lemma selfHit_iff: "selfHit sn a b \<longleftrightarrow> (a, b) \<in> set (map cell (butlast sn))"
  by (auto simp: selfHit_def list_ex_iff butlast_conv_take cell_def)

lemma segment_copy: "\<lparr>segment.x = segment.x g, segment.y = segment.y g, px = px g, py = py g\<rparr> = g"
  by simp

lemma die_Cons:
  "snake s = h # t \<Longrightarrow>
   die s = Inr (spawnBurst (of_int (segment.x h * CELL) + of_int CELL / 2)
                           (of_int (segment.y h * CELL) + of_int CELL / 2) 35
                           (s\<lparr>phase := Dead\<rparr>))"
  by (simp add: die_def)

lemma tick_not_playing: "phase s \<noteq> Playing \<Longrightarrow> tick s = Some (Inr s)"
  by (simp add: tick_def)

lemma tick_empty: "phase s = Playing \<Longrightarrow> snake s = [] \<Longrightarrow> tick s = Some (Inl TypeError)"
  by (simp add: tick_def)

lemma tick_dies:
  assumes "phase s = Playing" "snake s = h # t"
    and "nhx = segment.x h + vec.x (nextDir s)" "nhy = segment.y h + vec.y (nextDir s)"
    and "nhx < 0 \<or> nhx \<ge> GRID \<or> nhy < 0 \<or> nhy \<ge> GRID \<or>
         (nhx, nhy) \<in> set (map cell (butlast (snake s)))"
  shows "tick s =
     Some (Inr (spawnBurst (of_int (segment.x h * CELL) + of_int CELL / 2)
                           (of_int (segment.y h * CELL) + of_int CELL / 2) 35
                  (s\<lparr>dir := nextDir s, dirLocked := False,
                      snake := map savePrev (snake s), phase := Dead\<rparr>)))"
proof -
  have hit: "selfHit (map savePrev (snake s)) nhx nhy \<longleftrightarrow>
      (nhx, nhy) \<in> set (map cell (butlast (snake s)))"
    by (simp add: selfHit_iff map_butlast [symmetric])
  have hx: "segment.x (savePrev h) = segment.x h" "segment.y (savePrev h) = segment.y h"
    by (simp_all add: savePrev_def)
  show ?thesis
    using assms hit
    by (auto simp: tick_def Let_def die_def hx)
qed

lemma tick_moves:
  assumes "phase s = Playing" "snake s = h # t"
    and "nhx = segment.x h + vec.x (nextDir s)" "nhy = segment.y h + vec.y (nextDir s)"
    and "0 \<le> nhx" "nhx < GRID" "0 \<le> nhy" "nhy < GRID"
    and "(nhx, nhy) \<notin> set (map cell (butlast (snake s)))"
    and "(nhx, nhy) \<noteq> (food.x (food s), food.y (food s))"
  shows "tick s =
     Some (Inr (s\<lparr>dir := nextDir s, dirLocked := False,
                  snake := advance (map savePrev (snake s)) nhx nhy\<rparr>))"
proof -
  have hit: "selfHit (map savePrev (snake s)) nhx nhy \<longleftrightarrow>
      (nhx, nhy) \<in> set (map cell (butlast (snake s)))"
    by (simp add: selfHit_iff map_butlast [symmetric])
  have hx: "segment.x (savePrev h) = segment.x h" "segment.y (savePrev h) = segment.y h"
    by (simp_all add: savePrev_def)
  show ?thesis
    using assms hit
    by (auto simp: tick_def Let_def hx)
qed

lemma tick_eats:
  assumes "phase s = Playing" "snake s = h # t"
    and "nhx = segment.x h + vec.x (nextDir s)" "nhy = segment.y h + vec.y (nextDir s)"
    and "0 \<le> nhx" "nhx < GRID" "0 \<le> nhy" "nhy < GRID"
    and "(nhx, nhy) \<notin> set (map cell (butlast (snake s)))"
    and "(nhx, nhy) = (food.x (food s), food.y (food s))"
  shows "tick s =
     map_option Inr (grow (food s)
       (s\<lparr>dir := nextDir s, dirLocked := False,
          snake := advance (map savePrev (snake s)) nhx nhy\<rparr>))"
proof -
  have hit: "selfHit (map savePrev (snake s)) nhx nhy \<longleftrightarrow>
      (nhx, nhy) \<in> set (map cell (butlast (snake s)))"
    by (simp add: selfHit_iff map_butlast [symmetric])
  have hx: "segment.x (savePrev h) = segment.x h" "segment.y (savePrev h) = segment.y h"
    by (simp_all add: savePrev_def)
  show ?thesis
    using assms hit
    by (auto simp: tick_def Let_def hx)
qed

text \<open>The state in which \<open>grow\<close> calls \<open>placeFood\<close>.\<close>

lemma grow_eq:
  "grow fd s =
    placeFood
     ((spawnFloat (of_int (food.x fd * CELL) + of_int CELL / 2)
         (of_int (food.y fd * CELL) + of_int CELL / 2 - of_int CELL)
         (spawnBurst (of_int (food.x fd * CELL) + of_int CELL / 2)
            (of_int (food.y fd * CELL) + of_int CELL / 2) 16
            (if score s + 1 > best s
             then s\<lparr>score := score s + 1, best := score s + 1,
                     store := saveBest (score s + 1) (store s)\<rparr>
             else s\<lparr>score := score s + 1\<rparr>)))
      \<lparr>snake := snake s @ [last (snake s)]\<rparr>)"
  by (simp add: grow_def Let_def segment_copy)

lemma grow_Some:
  assumes "grow fd s = Some s'"
  shows "score s' = score s + 1"
    and "snake s' = snake s @ [last (snake s)]"
    and "best s' = max (best s) (score s + 1)"
    and "store s' = (if score s + 1 > best s then saveBest (score s + 1) (store s) else store s)"
    and "phase s' = phase s" and "dir s' = dir s" and "nextDir s' = nextDir s"
    and "dirLocked s' = dirLocked s" and "frame s' = frame s" and "lastTick s' = lastTick s"
    and "(food.x (food s'), food.y (food s')) \<notin> set (map cell (snake s'))"
proof -
  note pf = placeFood_fields [OF assms [unfolded grow_eq]]
  show "score s' = score s + 1" using pf(5) by simp
  show "snake s' = snake s @ [last (snake s)]" using pf(2) by simp
  show "best s' = max (best s) (score s + 1)" using pf(6) by simp
  show "store s' = (if score s + 1 > best s then saveBest (score s + 1) (store s) else store s)"
    using pf(12) by simp
  show "phase s' = phase s" using pf(1) by simp
  show "dir s' = dir s" using pf(3) by simp
  show "nextDir s' = nextDir s" using pf(4) by simp
  show "dirLocked s' = dirLocked s" using pf(11) by simp
  show "frame s' = frame s" using pf(7) by simp
  show "lastTick s' = lastTick s" using pf(8) by simp
  show "(food.x (food s'), food.y (food s')) \<notin> set (map cell (snake s'))"
    by (rule placeFood_free [OF assms [unfolded grow_eq]])
qed

lemma grow_returns_iff:
  "(\<exists>s'. grow fd s = Some s') \<longleftrightarrow>
   (\<exists>k. attempt (sdrop 80 (rng s)) k \<notin> set (map cell (snake s @ [last (snake s)])))"
  unfolding grow_eq placeFood_returns_iff by simp

lemma advance_Nil_iff [simp]: "advance sn a b = [] \<longleftrightarrow> sn = []"
  using length_advance [of sn a b] by (metis length_0_conv)

lemma set_cells_grown:
  assumes "sn \<noteq> []"
  shows "set (map cell (advance (map savePrev sn) a b @ [last (advance (map savePrev sn) a b)])) =
         set ((a, b) # map cell (butlast sn))"
proof -
  let ?sn = "advance (map savePrev sn) a b"
  have ne: "?sn \<noteq> []" using assms by simp
  have cells: "map cell ?sn = (a, b) # map cell (butlast sn)"
    using assms by (simp add: cells_advance map_butlast [symmetric])
  have "last ?sn \<in> set ?sn" using ne by simp
  then have "set (map cell (?sn @ [last ?sn])) = set (map cell ?sn)"
    by auto
  with cells show ?thesis by simp
qed

text \<open>A tick that consumes the item, when some round of the placement loop draws a free cell.\<close>

lemma tick_eats_returns:
  assumes "phase s = Playing" "snake s = h # t"
    and "nhx = segment.x h + vec.x (nextDir s)" "nhy = segment.y h + vec.y (nextDir s)"
    and "0 \<le> nhx" "nhx < GRID" "0 \<le> nhy" "nhy < GRID"
    and "(nhx, nhy) \<notin> set (map cell (butlast (snake s)))"
    and "(nhx, nhy) = (food.x (food s), food.y (food s))"
    and "attempt (sdrop 80 (rng s)) k \<notin> set ((nhx, nhy) # map cell (butlast (snake s)))"
  obtains s' where "tick s = Some (Inr s')"
    and "grow (food s) (s\<lparr>dir := nextDir s, dirLocked := False,
          snake := advance (map savePrev (snake s)) nhx nhy\<rparr>) = Some s'"
proof -
  let ?s2 = "s\<lparr>dir := nextDir s, dirLocked := False,
          snake := advance (map savePrev (snake s)) nhx nhy\<rparr>"
  have ne: "snake s \<noteq> []" using assms(2) by simp
  have "attempt (sdrop 80 (rng ?s2)) k \<notin> set (map cell (snake ?s2 @ [last (snake ?s2)]))"
    using assms(11) set_cells_grown [OF ne, of nhx nhy] by simp
  then have "\<exists>s'. grow (food s) ?s2 = Some s'"
    unfolding grow_returns_iff by blast
  then obtain s' where g: "grow (food s) ?s2 = Some s'" by blast
  have t: "tick s = Some (Inr s')"
    using tick_eats [OF assms(1-10)] g by simp
  show ?thesis using that [OF t g] .
qed

text \<open>A tick in phase playing returns when the placement loop, if it is reached, draws a free cell.\<close>

lemma tick_returns:
  assumes "phase s = Playing" "snake s = h # t"
    and "nhx = segment.x h + vec.x (nextDir s)" "nhy = segment.y h + vec.y (nextDir s)"
    and "attempt (sdrop 80 (rng s)) k \<notin> set ((nhx, nhy) # map cell (butlast (snake s)))"
  shows "\<exists>s'. tick s = Some (Inr s')"
proof (cases "nhx < 0 \<or> nhx \<ge> GRID \<or> nhy < 0 \<or> nhy \<ge> GRID \<or>
         (nhx, nhy) \<in> set (map cell (butlast (snake s)))")
  case True
  from tick_dies [OF assms(1-4) True] show ?thesis by blast
next
  case False
  then have b: "0 \<le> nhx" "nhx < GRID" "0 \<le> nhy" "nhy < GRID"
      "(nhx, nhy) \<notin> set (map cell (butlast (snake s)))"
    by auto
  show ?thesis
  proof (cases "(nhx, nhy) = (food.x (food s), food.y (food s))")
    case False
    from tick_moves [OF assms(1-4) b False] show ?thesis by blast
  next
    case True
    from tick_eats_returns [OF assms(1-4) b True assms(5)] show ?thesis by blast
  qed
qed

lemma tick_returns_off_item:
  assumes "phase s = Playing" "snake s = h # t"
    and "nhx = segment.x h + vec.x (nextDir s)" "nhy = segment.y h + vec.y (nextDir s)"
    and "(nhx, nhy) \<noteq> (food.x (food s), food.y (food s)) \<or>
         attempt (sdrop 80 (rng s)) k \<notin> set ((nhx, nhy) # map cell (butlast (snake s)))"
  shows "\<exists>s'. tick s = Some (Inr s')"
proof (cases "(nhx, nhy) = (food.x (food s), food.y (food s))")
  case True
  with assms(5)
  have "attempt (sdrop 80 (rng s)) k \<notin> set ((nhx, nhy) # map cell (butlast (snake s)))"
    by blast
  from tick_returns [OF assms(1-4) this] show ?thesis .
next
  case False
  show ?thesis
  proof (cases "nhx < 0 \<or> nhx \<ge> GRID \<or> nhy < 0 \<or> nhy \<ge> GRID \<or>
         (nhx, nhy) \<in> set (map cell (butlast (snake s)))")
    case True
    from tick_dies [OF assms(1-4) True] show ?thesis by blast
  next
    case b: False
    then have "0 \<le> nhx" "nhx < GRID" "0 \<le> nhy" "nhy < GRID"
      "(nhx, nhy) \<notin> set (map cell (butlast (snake s)))"
      by auto
    from tick_moves [OF assms(1-4) this False] show ?thesis by blast
  qed
qed

section \<open>Claims about a single tick\<close>

text \<open>
  C3. A tick in phase playing whose candidate head cell (head cell plus the direction the
  tick commits) lies outside \<open>[0, GRID)\<close> in either axis returns with phase dead; the
  creature has the same number of segments and every segment has the cell it had before
  the tick: the cascade has not run.
\<close>

theorem tick_wall_dead_cells_unchanged:
  assumes "phase s = Playing" and "snake s = h # t"
    and "nhx = segment.x h + vec.x (nextDir s)" and "nhy = segment.y h + vec.y (nextDir s)"
    and "nhx < 0 \<or> nhx \<ge> GRID \<or> nhy < 0 \<or> nhy \<ge> GRID"
  shows "\<exists>s'. tick s = Some (Inr s') \<and> phase s' = Dead \<and> dir s' = nextDir s \<and>
              map cell (snake s') = map cell (snake s)"
proof -
  from assms(5) have
    "nhx < 0 \<or> nhx \<ge> GRID \<or> nhy < 0 \<or> nhy \<ge> GRID \<or>
     (nhx, nhy) \<in> set (map cell (butlast (snake s)))"
    by blast
  from tick_dies [OF assms(1-4) this] show ?thesis
    by simp
qed

theorem tick_wall_dead_cells_unchanged_witness:
  "\<exists>s'. tick at_wall = Some (Inr s') \<and> phase s' = Dead \<and> dir s' = \<lparr>vec.x = 1, vec.y = 0\<rparr> \<and>
        map cell (snake s') = [(19, 10), (18, 10), (17, 10)]"
  using tick_wall_dead_cells_unchanged
    [of at_wall "seg 19 10 18 10" "[seg 18 10 17 10, seg 17 10 16 10]" 20 10]
  by (simp add: at_wall_def gs_def seg_def GRID_def cell_def)

text \<open>
  C4. A tick in phase playing whose candidate head cell is the cell of a segment other
  than the last returns with phase dead and the round score unchanged. When the candidate
  cell is on the grid and is the cell of the last segment only, the tick does not end the
  round: whatever it returns is in phase playing, and (the item not being on that cell)
  it returns with the head on the candidate cell and the other segments shifted.
\<close>

theorem tick_self_collision_tail_exempt:
  assumes "phase s = Playing" and "snake s = h # t"
    and "nhx = segment.x h + vec.x (nextDir s)" and "nhy = segment.y h + vec.y (nextDir s)"
  shows "((nhx, nhy) \<in> set (map cell (butlast (snake s))) \<longrightarrow>
           (\<exists>s'. tick s = Some (Inr s') \<and> phase s' = Dead \<and> score s' = score s)) \<and>
         (0 \<le> nhx \<and> nhx < GRID \<and> 0 \<le> nhy \<and> nhy < GRID \<and>
          (nhx, nhy) \<notin> set (map cell (butlast (snake s))) \<and>
          (nhx, nhy) = cell (last (snake s)) \<longrightarrow>
           (\<forall>r. tick s = Some r \<longrightarrow> (\<exists>s'. r = Inr s' \<and> phase s' = Playing)) \<and>
           ((nhx, nhy) \<noteq> (food.x (food s), food.y (food s)) \<longrightarrow>
             (\<exists>s'. tick s = Some (Inr s') \<and> phase s' = Playing \<and> score s' = score s \<and>
                   map cell (snake s') = (nhx, nhy) # map cell (butlast (snake s)))))"
proof (intro conjI impI)
  assume "(nhx, nhy) \<in> set (map cell (butlast (snake s)))"
  then have
    "nhx < 0 \<or> nhx \<ge> GRID \<or> nhy < 0 \<or> nhy \<ge> GRID \<or>
     (nhx, nhy) \<in> set (map cell (butlast (snake s)))"
    by blast
  from tick_dies [OF assms this]
  show "\<exists>s'. tick s = Some (Inr s') \<and> phase s' = Dead \<and> score s' = score s"
    by simp
next
  assume a: "0 \<le> nhx \<and> nhx < GRID \<and> 0 \<le> nhy \<and> nhy < GRID \<and>
          (nhx, nhy) \<notin> set (map cell (butlast (snake s))) \<and>
          (nhx, nhy) = cell (last (snake s))"
  then have b: "0 \<le> nhx" "nhx < GRID" "0 \<le> nhy" "nhy < GRID"
      "(nhx, nhy) \<notin> set (map cell (butlast (snake s)))"
    by blast+
  show "\<forall>r. tick s = Some r \<longrightarrow> (\<exists>s'. r = Inr s' \<and> phase s' = Playing)"
  proof (cases "(nhx, nhy) = (food.x (food s), food.y (food s))")
    case True
    have "tick s = map_option Inr (grow (food s)
       (s\<lparr>dir := nextDir s, dirLocked := False,
          snake := advance (map savePrev (snake s)) nhx nhy\<rparr>))"
      by (rule tick_eats [OF assms b True])
    then show ?thesis
      using assms(1) by (auto dest: grow_Some(5))
  next
    case False
    have "tick s = Some (Inr (s\<lparr>dir := nextDir s, dirLocked := False,
                  snake := advance (map savePrev (snake s)) nhx nhy\<rparr>))"
      by (rule tick_moves [OF assms b False])
    then show ?thesis
      using assms(1) by simp
  qed
next
  assume a: "0 \<le> nhx \<and> nhx < GRID \<and> 0 \<le> nhy \<and> nhy < GRID \<and>
          (nhx, nhy) \<notin> set (map cell (butlast (snake s))) \<and>
          (nhx, nhy) = cell (last (snake s))"
    and nf: "(nhx, nhy) \<noteq> (food.x (food s), food.y (food s))"
  from a have b: "0 \<le> nhx" "nhx < GRID" "0 \<le> nhy" "nhy < GRID"
      "(nhx, nhy) \<notin> set (map cell (butlast (snake s)))"
    by blast+
  have "tick s = Some (Inr (s\<lparr>dir := nextDir s, dirLocked := False,
                  snake := advance (map savePrev (snake s)) nhx nhy\<rparr>))"
    by (rule tick_moves [OF assms b nf])
  then show "\<exists>s'. tick s = Some (Inr s') \<and> phase s' = Playing \<and> score s' = score s \<and>
                   map cell (snake s') = (nhx, nhy) # map cell (butlast (snake s))"
    using assms(1,2) by (simp add: cells_advance map_butlast [symmetric])
qed

theorem tick_self_collision_tail_exempt_witness:
  "(\<exists>s'. tick coiled5 = Some (Inr s') \<and> phase s' = Dead \<and> score s' = 2) \<and>
   (\<exists>s'. tick coiled4 = Some (Inr s') \<and> phase s' = Playing \<and> score s' = 1 \<and>
         map cell (snake s') = [(10, 11), (10, 10), (11, 10), (11, 11)])"
proof
  show "\<exists>s'. tick coiled5 = Some (Inr s') \<and> phase s' = Dead \<and> score s' = 2"
    using tick_self_collision_tail_exempt
      [of coiled5 "seg 10 10 11 10"
          "[seg 11 10 11 11, seg 11 11 10 11, seg 10 11 9 11, seg 9 11 8 11]" 10 11]
    by (simp add: coiled5_def gs_def seg_def cell_def)
  show "\<exists>s'. tick coiled4 = Some (Inr s') \<and> phase s' = Playing \<and> score s' = 1 \<and>
         map cell (snake s') = [(10, 11), (10, 10), (11, 10), (11, 11)]"
    using tick_self_collision_tail_exempt
      [of coiled4 "seg 10 10 11 10" "[seg 11 10 11 11, seg 11 11 10 11, seg 10 11 9 11]" 10 11]
    by (simp add: coiled4_def gs_def seg_def cell_def GRID_def)
qed

lemma buildSnake_eq: "buildSnake = [seg 10 10 10 10, seg 9 10 9 10, seg 8 10 8 10]"
  by (simp add: buildSnake_def GRID_def seg_def)

lemma before_item_facts:
  "phase before_item = Playing"
  "snake before_item = seg 10 10 10 10 # [seg 9 10 9 10, seg 8 10 8 10]"
  "(11::int) = segment.x (seg 10 10 10 10) + vec.x (nextDir before_item)"
  "(10::int) = segment.y (seg 10 10 10 10) + vec.y (nextDir before_item)"
  "(0::int) \<le> 11" "11 < GRID" "(0::int) \<le> 10" "10 < GRID"
  "(11, 10) \<notin> set (map cell (butlast (snake before_item)))"
  "(11, 10) = (food.x (food before_item), food.y (food before_item))"
  "attempt (sdrop 80 (rng before_item)) 0 \<notin> set ((11, 10) # map cell (butlast (snake before_item)))"
  by (simp_all add: before_item_def gs_def buildSnake_eq seg_def cell_def GRID_def zeros_def
      attempt_def rndInt_def)

text \<open>
  C9. After a tick that consumed the item, the appended last segment has the cell and the
  previous cell of the segment before it, so the state the tick leaves has two segments
  on one grid cell.
\<close>

theorem tick_consume_leaves_two_segments_on_one_cell:
  assumes "phase s = Playing" and "snake s = h # t"
    and "nhx = segment.x h + vec.x (nextDir s)" and "nhy = segment.y h + vec.y (nextDir s)"
    and "0 \<le> nhx" and "nhx < GRID" and "0 \<le> nhy" and "nhy < GRID"
    and "(nhx, nhy) \<notin> set (map cell (butlast (snake s)))"
    and "(nhx, nhy) = (food.x (food s), food.y (food s))"
    and "attempt (sdrop 80 (rng s)) k \<notin> set ((nhx, nhy) # map cell (butlast (snake s)))"
  shows "\<exists>s' n. tick s = Some (Inr s') \<and> n = length (snake s) \<and>
              length (snake s') = n + 1 \<and>
              segment.x (snake s' ! n) = segment.x (snake s' ! (n - 1)) \<and>
              segment.y (snake s' ! n) = segment.y (snake s' ! (n - 1)) \<and>
              px (snake s' ! n) = px (snake s' ! (n - 1)) \<and>
              py (snake s' ! n) = py (snake s' ! (n - 1)) \<and>
              \<not> distinct (map cell (snake s'))"
proof -
  from tick_eats_returns [OF assms] obtain s' where
    t: "tick s = Some (Inr s')" and
    g: "grow (food s) (s\<lparr>dir := nextDir s, dirLocked := False,
          snake := advance (map savePrev (snake s)) nhx nhy\<rparr>) = Some s'"
    by blast
  let ?sn = "advance (map savePrev (snake s)) nhx nhy"
  let ?n = "length (snake s)"
  have sn: "snake s' = ?sn @ [last ?sn]"
    using grow_Some(2) [OF g] by simp
  have ne: "?sn \<noteq> []" and len: "length ?sn = ?n" and pos: "0 < ?n"
    using assms(2) by simp_all
  have at_n: "snake s' ! ?n = last ?sn"
    unfolding sn using len by (metis nth_append_length)
  have at_p: "snake s' ! (?n - 1) = last ?sn"
    unfolding sn using ne len pos by (simp add: nth_append last_conv_nth)
  have "last ?sn \<in> set ?sn" using ne by simp
  then have "\<not> distinct (map cell (snake s'))"
    unfolding sn by auto
  with t sn len at_n at_p show ?thesis
    by simp
qed

theorem tick_consume_leaves_two_segments_on_one_cell_witness:
  "\<exists>s'. tick before_item = Some (Inr s') \<and>
        length (snake s') = 4 \<and>
        segment.x (snake s' ! 3) = segment.x (snake s' ! 2) \<and>
        segment.y (snake s' ! 3) = segment.y (snake s' ! 2) \<and>
        px (snake s' ! 3) = px (snake s' ! 2) \<and>
        py (snake s' ! 3) = py (snake s' ! 2) \<and>
        \<not> distinct (map cell (snake s'))"
proof -
  from tick_consume_leaves_two_segments_on_one_cell [OF before_item_facts]
  obtain s' n where s': "tick before_item = Some (Inr s')" "n = length (snake before_item)"
      "length (snake s') = n + 1"
      "segment.x (snake s' ! n) = segment.x (snake s' ! (n - 1))"
      "segment.y (snake s' ! n) = segment.y (snake s' ! (n - 1))"
      "px (snake s' ! n) = px (snake s' ! (n - 1))"
      "py (snake s' ! n) = py (snake s' ! (n - 1))"
      "\<not> distinct (map cell (snake s'))"
    by blast
  have "length (snake before_item) = 3"
    by (simp add: before_item_def gs_def buildSnake_eq)
  with s'(2) have n3: "n = 3" by simp
  have n: "(3::nat) + 1 = 4" "(3::nat) - 1 = 2" by simp_all
  from s'(1,3-8) [unfolded n3] have "tick before_item = Some (Inr s') \<and>
        length (snake s') = 4 \<and>
        segment.x (snake s' ! 3) = segment.x (snake s' ! 2) \<and>
        segment.y (snake s' ! 3) = segment.y (snake s' ! 2) \<and>
        px (snake s' ! 3) = px (snake s' ! 2) \<and>
        py (snake s' ! 3) = py (snake s' ! 2) \<and>
        \<not> distinct (map cell (snake s'))"
    by (simp only: n simp_thms)
  then show ?thesis ..
qed

section \<open>Claims about item placement\<close>

lemma full_snake_covers:
  assumes "0 \<le> a" "a < GRID" "0 \<le> b" "b < GRID"
  shows "(a, b) \<in> set (map cell full_snake)"
proof -
  define c where "c = (if even b then a else GRID - 1 - a)"
  define i where "i = nat (b * GRID + c)"
  have c: "0 \<le> c" "c < GRID"
    using assms by (simp_all add: c_def GRID_def)
  have "b * GRID + c < GRID * GRID"
    using assms c by (simp add: GRID_def)
  then have i: "i < nat (GRID * GRID)"
    using assms c by (simp add: i_def GRID_def)
  have int_i: "int i = b * GRID + c"
    using assms c by (simp add: i_def GRID_def)
  have d: "int i div GRID = b" and m: "int i mod GRID = c"
    using assms c by (simp_all add: int_i GRID_def)
  have "cell (let r = int i div GRID;
                  c = (if even r then int i mod GRID else GRID - 1 - int i mod GRID)
              in seg c r c r) = (a, b)"
    by (simp add: d m Let_def cell_def seg_def c_def)
  moreover have "i \<in> set [0..<nat (GRID * GRID)]"
    using i by simp
  ultimately show ?thesis
    unfolding full_snake_def set_map image_image
    by (metis (no_types, lifting) imageI)
qed

lemma attempt_on_grid:
  assumes "\<forall>u \<in> sset r. 0 \<le> u \<and> u < 1"
  shows "0 \<le> fst (attempt r k) \<and> fst (attempt r k) < GRID \<and>
         0 \<le> snd (attempt r k) \<and> snd (attempt r k) < GRID"
proof -
  have "0 \<le> r !! (2 * k) \<and> r !! (2 * k) < 1" "0 \<le> r !! (2 * k + 1) \<and> r !! (2 * k + 1) < 1"
    using assms snth_sset by blast+
  then show ?thesis
    using rndInt_range [of "r !! (2 * k)" GRID] rndInt_range [of "r !! (2 * k + 1)" GRID]
    by (simp add: attempt_def GRID_def)
qed


lemma placeFood_first:
  assumes "attempt (rng s) k \<notin> set (map cell (snake s))"
    and "\<forall>j<k. attempt (rng s) j \<in> set (map cell (snake s))"
  shows "placeFood s =
     Some (s\<lparr>food := \<lparr>food.x = fst (attempt (rng s) k), food.y = snd (attempt (rng s) k),
                       mush = rndInt (int (length MUSHROOMS)) (rng s !! (2 * k + 2))\<rparr>,
              rng := sdrop (2 * k + 3) (rng s)\<rparr>)"
proof -
  from assms(1) have "\<exists>s'. placeFood s = Some s'"
    unfolding placeFood_returns_iff by blast
  then obtain s' where s': "placeFood s = Some s'" by blast
  from placeFood_Some [OF s'] obtain m where
    m: "attempt (rng s) m \<notin> set (map cell (snake s))"
       "\<forall>j<m. attempt (rng s) j \<in> set (map cell (snake s))"
       "s' = s\<lparr>food := \<lparr>food.x = fst (attempt (rng s) m), food.y = snd (attempt (rng s) m),
                       mush = rndInt (int (length MUSHROOMS)) (rng s !! (2 * m + 2))\<rparr>,
              rng := sdrop (2 * m + 3) (rng s)\<rparr>"
    by blast
  have "m = k"
    using assms m(1,2) by (meson linorder_neqE_nat)
  with s' m(3) show ?thesis by simp
qed




section \<open>Which draws give which cell, and how many sequences of cells give which result\<close>





















section \<open>The consuming tick\<close>

lemma full_snake_nth:
  assumes "i < 400"
  shows "full_snake ! i =
           (let r = int i div GRID;
                c = (if even r then int i mod GRID else GRID - 1 - int i mod GRID)
            in seg c r c r)"
  using assms by (simp add: full_snake_def GRID_def Let_def)

lemma length_full_snake: "length full_snake = 400"
  by (simp add: full_snake_def GRID_def)

lemma full_snake_split:
  "full_snake = seg 0 0 0 0 # seg 1 0 1 0 # tl (tl full_snake)"
proof -
  have l: "length (tl full_snake) = 399" "length full_snake = 400"
    by (simp_all add: length_full_snake)
  have h0: "hd full_snake = seg 0 0 0 0"
    using full_snake_nth [of 0] l(2)
    by (simp add: hd_conv_nth length_0_conv [symmetric] GRID_def del: length_0_conv)
  have "hd (tl full_snake) = tl full_snake ! 0"
    using l(1) by (simp add: hd_conv_nth length_0_conv [symmetric] del: length_0_conv)
  also have "\<dots> = full_snake ! 1"
    using l(2) by (simp add: nth_tl)
  also have "\<dots> = seg 1 0 1 0"
    using full_snake_nth [of 1] by (simp add: GRID_def)
  finally have h1: "hd (tl full_snake) = seg 1 0 1 0" .
  have "full_snake \<noteq> []" "tl full_snake \<noteq> []"
    using l by (metis list.size(3) zero_neq_numeral)+
  then show ?thesis
    using h0 h1 by (metis list.collapse)
qed

lemma origin_not_in_tl_full_snake: "(0, 0) \<notin> set (map cell (tl full_snake))"
proof
  assume "(0, 0) \<in> set (map cell (tl full_snake))"
  then obtain g where g: "g \<in> set (tl full_snake)" "cell g = (0, 0)" by auto
  from g(1) obtain i where i: "i < length (tl full_snake)" "tl full_snake ! i = g"
    by (auto simp: in_set_conv_nth)
  then have j: "Suc i < 400" "full_snake ! Suc i = g"
    by (simp_all add: length_full_snake nth_tl)
  define r where "r = int (Suc i) div GRID"
  define c where "c = (if even r then int (Suc i) mod GRID else GRID - 1 - int (Suc i) mod GRID)"
  have "g = seg c r c r"
    using full_snake_nth [OF j(1)] j(2) by (simp add: Let_def r_def c_def)
  with g(2) have z: "c = 0" "r = 0" by (simp_all add: cell_def seg_def)
  from z(2) have "int (Suc i) < GRID" unfolding r_def GRID_def by simp
  with z show False unfolding c_def GRID_def by simp
qed

lemma nearly_full_fields:
  "phase nearly_full = Playing" "nextDir nearly_full = \<lparr>vec.x = - 1, vec.y = 0\<rparr>"
  "snake nearly_full = seg 1 0 1 0 # (tl (tl full_snake) @ [last full_snake])"
  "butlast (snake nearly_full) = tl full_snake"
  "food nearly_full = \<lparr>food.x = 0, food.y = 0, mush = 0\<rparr>" "rng nearly_full = zeros"
proof -
  have t: "tl full_snake = seg 1 0 1 0 # tl (tl full_snake)"
    using full_snake_split by (metis list.sel(3))
  show "snake nearly_full = seg 1 0 1 0 # (tl (tl full_snake) @ [last full_snake])"
    using t by (simp add: nearly_full_def)
  show "butlast (snake nearly_full) = tl full_snake"
    by (simp add: nearly_full_def)
qed (simp_all add: nearly_full_def gs_def)

lemma nearly_full_facts:
  "phase nearly_full = Playing"
  "snake nearly_full = seg 1 0 1 0 # (tl (tl full_snake) @ [last full_snake])"
  "(0::int) = segment.x (seg 1 0 1 0) + vec.x (nextDir nearly_full)"
  "(0::int) = segment.y (seg 1 0 1 0) + vec.y (nextDir nearly_full)"
  "(0::int) \<le> 0" "0 < GRID" "(0::int) \<le> 0" "0 < GRID"
  "(0, 0) \<notin> set (map cell (butlast (snake nearly_full)))"
  "(0, 0) = (food.x (food nearly_full), food.y (food nearly_full))"
proof -
  show "(0, 0) \<notin> set (map cell (butlast (snake nearly_full)))"
    unfolding nearly_full_fields(4) by (rule origin_not_in_tl_full_snake)
qed (simp_all add: nearly_full_fields seg_def GRID_def)

lemma nearly_full_covered:
  "\<forall>u \<in> sset (rng nearly_full). 0 \<le> u \<and> u < 1"
  "\<forall>a b. 0 \<le> a \<and> a < GRID \<and> 0 \<le> b \<and> b < GRID \<longrightarrow>
     (a, b) \<in> set ((0, 0) # map cell (butlast (snake nearly_full)))"
proof -
  show "\<forall>u \<in> sset (rng nearly_full). 0 \<le> u \<and> u < 1"
    by (simp add: nearly_full_fields zeros_def)
  have e: "full_snake = seg 0 0 0 0 # tl full_snake"
    using full_snake_split by (metis list.sel(3))
  have "map cell full_snake = map cell (seg 0 0 0 0 # tl full_snake)"
    by (rule arg_cong [OF e])
  then have "map cell full_snake = (0, 0) # map cell (tl full_snake)"
    by (simp add: cell_def seg_def)
  then have "set ((0, 0) # map cell (butlast (snake nearly_full))) = set (map cell full_snake)"
    unfolding nearly_full_fields(4) by simp
  then show "\<forall>a b. 0 \<le> a \<and> a < GRID \<and> 0 \<le> b \<and> b < GRID \<longrightarrow>
     (a, b) \<in> set ((0, 0) # map cell (butlast (snake nearly_full)))"
    using full_snake_covers by presburger
qed

text \<open>A consuming tick whose placement loop draws no free cell does not return.\<close>

lemma tick_eats_None:
  assumes "phase s = Playing" "snake s = h # t"
    and "nhx = segment.x h + vec.x (nextDir s)" "nhy = segment.y h + vec.y (nextDir s)"
    and "0 \<le> nhx" "nhx < GRID" "0 \<le> nhy" "nhy < GRID"
    and "(nhx, nhy) \<notin> set (map cell (butlast (snake s)))"
    and "(nhx, nhy) = (food.x (food s), food.y (food s))"
    and "\<forall>j. attempt (sdrop 80 (rng s)) j \<in> set ((nhx, nhy) # map cell (butlast (snake s)))"
  shows "tick s = None"
proof -
  let ?s2 = "s\<lparr>dir := nextDir s, dirLocked := False,
          snake := advance (map savePrev (snake s)) nhx nhy\<rparr>"
  have ne: "snake s \<noteq> []" using assms(2) by simp
  have "\<forall>j. attempt (sdrop 80 (rng ?s2)) j \<in> set (map cell (snake ?s2 @ [last (snake ?s2)]))"
    using assms(11) set_cells_grown [OF ne, of nhx nhy] by simp
  then have "\<not> (\<exists>s'. grow (food s) ?s2 = Some s')"
    unfolding grow_returns_iff by blast
  then have "grow (food s) ?s2 = None" by simp
  then show ?thesis
    using tick_eats [OF assms(1-10)] by simp
qed

lemma covered_all_attempts:
  assumes "\<forall>u \<in> sset r. 0 \<le> u \<and> u < 1"
    and "\<forall>a b. 0 \<le> a \<and> a < GRID \<and> 0 \<le> b \<and> b < GRID \<longrightarrow> (a, b) \<in> set cs"
  shows "\<forall>j. attempt (sdrop n r) j \<in> set cs"
proof
  fix j
  have "\<forall>u \<in> sset (sdrop n r). 0 \<le> u \<and> u < 1"
    unfolding sset_range using assms(1) by (auto simp: sdrop_snth)
  from attempt_on_grid [OF this, of j] assms(2)
  show "attempt (sdrop n r) j \<in> set cs"
    by (metis prod.collapse)
qed

text \<open>
  C5, as the code has it. Take a tick in phase playing whose candidate head cell is the
  item's cell, on the grid and on no segment but possibly the last. If some round of the
  placement loop draws a cell off the creature as it is after the move, the tick returns:
  the round score is one higher, the creature is the cascaded creature with one segment
  appended that equals the cascaded last segment in cell and previous cell, and the new
  item's cell is on no segment of the grown creature. If no round draws such a cell the
  tick does not return, and no round does when the moved creature covers the grid.
\<close>

theorem tick_consume_scores_grows_relocates:
  assumes "phase s = Playing" and "snake s = h # t"
    and "nhx = segment.x h + vec.x (nextDir s)" and "nhy = segment.y h + vec.y (nextDir s)"
    and "0 \<le> nhx" and "nhx < GRID" and "0 \<le> nhy" and "nhy < GRID"
    and "(nhx, nhy) \<notin> set (map cell (butlast (snake s)))"
    and "(nhx, nhy) = (food.x (food s), food.y (food s))"
  shows "(attempt (sdrop 80 (rng s)) k \<notin> set ((nhx, nhy) # map cell (butlast (snake s))) \<longrightarrow>
           (\<exists>s'. tick s = Some (Inr s') \<and> phase s' = Playing \<and>
              score s' = score s + 1 \<and>
              length (snake s') = length (snake s) + 1 \<and>
              butlast (snake s') = advance (map savePrev (snake s)) nhx nhy \<and>
              last (snake s') = last (butlast (snake s')) \<and>
              (food.x (food s'), food.y (food s')) \<notin> set (map cell (snake s')))) \<and>
         ((\<forall>j. attempt (sdrop 80 (rng s)) j \<in> set ((nhx, nhy) # map cell (butlast (snake s)))) \<longrightarrow>
           tick s = None) \<and>
         ((\<forall>u \<in> sset (rng s). 0 \<le> u \<and> u < 1) \<and>
          (\<forall>a b. 0 \<le> a \<and> a < GRID \<and> 0 \<le> b \<and> b < GRID \<longrightarrow>
             (a, b) \<in> set ((nhx, nhy) # map cell (butlast (snake s)))) \<longrightarrow>
           tick s = None)"
proof (intro conjI impI)
  assume free: "attempt (sdrop 80 (rng s)) k \<notin> set ((nhx, nhy) # map cell (butlast (snake s)))"
  from tick_eats_returns [OF assms free] obtain s' where
    t: "tick s = Some (Inr s')" and
    g: "grow (food s) (s\<lparr>dir := nextDir s, dirLocked := False,
          snake := advance (map savePrev (snake s)) nhx nhy\<rparr>) = Some s'"
    by blast
  note gs = grow_Some [OF g]
  have "phase s' = Playing" using gs(5) assms(1) by simp
  moreover have "score s' = score s + 1" using gs(1) by simp
  moreover have sn: "snake s' = advance (map savePrev (snake s)) nhx nhy @
      [last (advance (map savePrev (snake s)) nhx nhy)]"
    using gs(2) by simp
  moreover have "length (snake s') = length (snake s) + 1"
    unfolding sn by simp
  moreover have "butlast (snake s') = advance (map savePrev (snake s)) nhx nhy"
    unfolding sn by simp
  moreover have "last (snake s') = last (butlast (snake s'))"
    unfolding sn by simp
  ultimately show "\<exists>s'. tick s = Some (Inr s') \<and> phase s' = Playing \<and>
              score s' = score s + 1 \<and>
              length (snake s') = length (snake s) + 1 \<and>
              butlast (snake s') = advance (map savePrev (snake s)) nhx nhy \<and>
              last (snake s') = last (butlast (snake s')) \<and>
              (food.x (food s'), food.y (food s')) \<notin> set (map cell (snake s'))"
    using t gs(11) by blast
next
  assume "\<forall>j. attempt (sdrop 80 (rng s)) j \<in> set ((nhx, nhy) # map cell (butlast (snake s)))"
  with assms show "tick s = None" by (rule tick_eats_None)
next
  assume "(\<forall>u \<in> sset (rng s). 0 \<le> u \<and> u < 1) \<and>
          (\<forall>a b. 0 \<le> a \<and> a < GRID \<and> 0 \<le> b \<and> b < GRID \<longrightarrow>
             (a, b) \<in> set ((nhx, nhy) # map cell (butlast (snake s))))"
  then have "\<forall>j. attempt (sdrop 80 (rng s)) j \<in> set ((nhx, nhy) # map cell (butlast (snake s)))"
    using covered_all_attempts by blast
  with assms show "tick s = None" by (rule tick_eats_None)
qed

theorem tick_consume_scores_grows_relocates_witness:
  "(\<exists>s'. tick before_item = Some (Inr s') \<and> phase s' = Playing \<and>
        score s' = 1 \<and> length (snake s') = 4 \<and>
        butlast (snake s') = advance (map savePrev (snake before_item)) 11 10 \<and>
        last (snake s') = last (butlast (snake s')) \<and>
        (food.x (food s'), food.y (food s')) \<notin> set (map cell (snake s'))) \<and>
   tick nearly_full = None"
proof
  have free: "attempt (sdrop 80 (rng before_item)) 0 \<notin>
      set ((11, 10) # map cell (butlast (snake before_item)))"
    by (rule before_item_facts(11))
  from tick_consume_scores_grows_relocates [OF before_item_facts(1-10), of 0] free
  obtain s' where s': "tick before_item = Some (Inr s')" "phase s' = Playing"
      "score s' = score before_item + 1"
      "length (snake s') = length (snake before_item) + 1"
      "butlast (snake s') = advance (map savePrev (snake before_item)) 11 10"
      "last (snake s') = last (butlast (snake s'))"
      "(food.x (food s'), food.y (food s')) \<notin> set (map cell (snake s'))"
    by blast
  have eqs: "score before_item + 1 = 1" "length (snake before_item) + 1 = 4"
    by (simp_all add: before_item_def gs_def buildSnake_eq)
  from s' have "tick before_item = Some (Inr s') \<and> phase s' = Playing \<and>
        score s' = 1 \<and> length (snake s') = 4 \<and>
        butlast (snake s') = advance (map savePrev (snake before_item)) 11 10 \<and>
        last (snake s') = last (butlast (snake s')) \<and>
        (food.x (food s'), food.y (food s')) \<notin> set (map cell (snake s'))"
    by (simp only: eqs simp_thms)
  then show "\<exists>s'. tick before_item = Some (Inr s') \<and> phase s' = Playing \<and>
        score s' = 1 \<and> length (snake s') = 4 \<and>
        butlast (snake s') = advance (map savePrev (snake before_item)) 11 10 \<and>
        last (snake s') = last (butlast (snake s')) \<and>
        (food.x (food s'), food.y (food s')) \<notin> set (map cell (snake s'))" ..
  from tick_consume_scores_grows_relocates [OF nearly_full_facts, of 0] nearly_full_covered
  show "tick nearly_full = None" by blast
qed

text \<open>
  C5 as stated fails: in \<open>nearly_full\<close> the candidate head cell is the item's cell, on the
  grid and on no segment, yet the tick does not return, so no score is ever increased
  and no item placed.
\<close>

theorem consuming_tick_on_filled_grid_never_returns:
  "phase nearly_full = Playing \<and> cell (hd (snake nearly_full)) = (1, 0) \<and>
   nextDir nearly_full = \<lparr>vec.x = - 1, vec.y = 0\<rparr> \<and>
   (food.x (food nearly_full), food.y (food nearly_full)) = (0, 0) \<and>
   \<not> selfHit (snake nearly_full) 0 0 \<and>
   tick nearly_full = None"
proof -
  have "\<forall>j. attempt (sdrop 80 (rng nearly_full)) j \<in>
      set ((0, 0) # map cell (butlast (snake nearly_full)))"
    using nearly_full_covered by (rule covered_all_attempts)
  with nearly_full_facts have "tick nearly_full = None"
    by (rule tick_eats_None)
  moreover have "\<not> selfHit (snake nearly_full) 0 0"
    using nearly_full_facts(9) by (simp add: selfHit_iff)
  moreover have "cell (hd (snake nearly_full)) = (1, 0)"
    by (simp add: nearly_full_fields(3) cell_def seg_def)
  ultimately show ?thesis
    by (simp add: nearly_full_fields)
qed

section \<open>What one event does to the game\<close>

lemma core_pools [simp]:
  "core (updateFloats s) = core s"
  "core (updateParticles s) = core s"
  "core (spawnBurst a b n s) = core s"
  "core (spawnFloat a b s) = core s"
  "core (s\<lparr>frame := f\<rparr>) = core s"
  "core (s\<lparr>lastTick := l\<rparr>) = core s"
  "core (s\<lparr>rng := r\<rparr>) = core s"
  "core (s\<lparr>particles := ps\<rparr>) = core s"
  "core (s\<lparr>floatTexts := fs\<rparr>) = core s"
  by (simp_all add: core_def)

lemma map_option_Inr_eq [simp]:
  "map_option Inr z = Some (Inr w) \<longleftrightarrow> z = Some w"
  "Some (Inr w) = map_option Inr z \<longleftrightarrow> z = Some w"
  by (cases z; auto)+

lemma placeFood_core:
  assumes "placeFood s = Some s'"
  shows "\<exists>fd. core s' = core (s\<lparr>food := fd\<rparr>) \<and>
              (food.x fd, food.y fd) \<notin> set (map cell (snake s))"
proof -
  from placeFood_Some [OF assms] obtain k where
    "attempt (rng s) k \<notin> set (map cell (snake s))"
    "s' = s\<lparr>food := \<lparr>food.x = fst (attempt (rng s) k), food.y = snd (attempt (rng s) k),
                      mush = rndInt (int (length MUSHROOMS)) (rng s !! (2 * k + 2))\<rparr>,
             rng := sdrop (2 * k + 3) (rng s)\<rparr>"
    by blast
  then have "core s' = core (s\<lparr>food := \<lparr>food.x = fst (attempt (rng s) k),
        food.y = snd (attempt (rng s) k),
        mush = rndInt (int (length MUSHROOMS)) (rng s !! (2 * k + 2))\<rparr>\<rparr>) \<and>
      (food.x \<lparr>food.x = fst (attempt (rng s) k), food.y = snd (attempt (rng s) k),
        mush = rndInt (int (length MUSHROOMS)) (rng s !! (2 * k + 2))\<rparr>,
       food.y \<lparr>food.x = fst (attempt (rng s) k), food.y = snd (attempt (rng s) k),
        mush = rndInt (int (length MUSHROOMS)) (rng s !! (2 * k + 2))\<rparr>)
         \<notin> set (map cell (snake s))"
    by (simp add: core_def)
  then show ?thesis by blast
qed

lemma startGame_core:
  assumes "startGame now s = Some s'"
  shows "\<exists>fd. core s' =
           (Playing, buildSnake, \<lparr>vec.x = 1, vec.y = 0\<rparr>, \<lparr>vec.x = 1, vec.y = 0\<rparr>, False,
            0, best s, store s, fd) \<and>
           (food.x fd, food.y fd) \<notin> set (map cell buildSnake)"
  using placeFood_core [OF assms [unfolded startGame_def]]
  by (auto simp: core_def)

lemma grow_core:
  assumes "grow fd s = Some s'"
  shows "\<exists>fd'. core s' =
           (phase s, snake s @ [last (snake s)], dir s, nextDir s, dirLocked s,
            score s + 1, max (best s) (score s + 1),
            (if score s + 1 > best s then saveBest (score s + 1) (store s) else store s), fd') \<and>
           (food.x fd', food.y fd') \<notin> set (map cell (snake s @ [last (snake s)]))"
  using placeFood_core [OF assms [unfolded grow_eq]]
  by (auto simp: core_def)

text \<open>A tick that returns took one of four ways.\<close>

lemma tick_cases:
  assumes "tick s = Some (Inr s')"
  obtains
    (idle) "phase s \<noteq> Playing" "s' = s"
  | (died) h t where "phase s = Playing" "snake s = h # t"
      "core s' = (Dead, map savePrev (snake s), nextDir s, nextDir s, False,
                  score s, best s, store s, food s)"
  | (moved) h t where "phase s = Playing" "snake s = h # t"
      "(segment.x h + vec.x (nextDir s), segment.y h + vec.y (nextDir s))
         \<notin> set (map cell (butlast (snake s)))"
      "core s' = (Playing,
                  advance (map savePrev (snake s))
                    (segment.x h + vec.x (nextDir s)) (segment.y h + vec.y (nextDir s)),
                  nextDir s, nextDir s, False, score s, best s, store s, food s)"
  | (ate) h t sn fd where "phase s = Playing" "snake s = h # t"
      "(segment.x h + vec.x (nextDir s), segment.y h + vec.y (nextDir s))
         \<notin> set (map cell (butlast (snake s)))"
      "sn = advance (map savePrev (snake s))
              (segment.x h + vec.x (nextDir s)) (segment.y h + vec.y (nextDir s))"
      "core s' = (Playing, sn @ [last sn], nextDir s, nextDir s, False,
                  score s + 1, max (best s) (score s + 1),
                  (if score s + 1 > best s then saveBest (score s + 1) (store s) else store s),
                  fd)"
      "(food.x fd, food.y fd) \<notin> set (map cell (sn @ [last sn]))"
proof (cases "phase s = Playing")
  case False
  with assms have "s' = s" by (simp add: tick_not_playing)
  with False show ?thesis by (rule idle)
next
  case True
  show ?thesis
  proof (cases "snake s")
    case Nil
    with True assms show ?thesis by (simp add: tick_empty)
  next
    case (Cons h t)
    define nhx where "nhx = segment.x h + vec.x (nextDir s)"
    define nhy where "nhy = segment.y h + vec.y (nextDir s)"
    note pre = True Cons nhx_def nhy_def
    show ?thesis
    proof (cases "nhx < 0 \<or> nhx \<ge> GRID \<or> nhy < 0 \<or> nhy \<ge> GRID \<or>
         (nhx, nhy) \<in> set (map cell (butlast (snake s)))")
      case True
      from tick_dies [OF pre True] assms
      have "core s' = (Dead, map savePrev (snake s), nextDir s, nextDir s, False,
                  score s, best s, store s, food s)"
        by (auto simp: core_def)
      with pre(1,2) show ?thesis by (rule died)
    next
      case False
      then have b: "0 \<le> nhx" "nhx < GRID" "0 \<le> nhy" "nhy < GRID"
          "(nhx, nhy) \<notin> set (map cell (butlast (snake s)))"
        by auto
      show ?thesis
      proof (cases "(nhx, nhy) = (food.x (food s), food.y (food s))")
        case False
        from tick_moves [OF pre b False] assms
        have "core s' = (Playing, advance (map savePrev (snake s)) nhx nhy,
                  nextDir s, nextDir s, False, score s, best s, store s, food s)"
          using pre(1) by (auto simp: core_def)
        with pre(1,2) b(5) show ?thesis
          unfolding nhx_def nhy_def by (rule moved)
      next
        case True
        let ?s2 = "s\<lparr>dir := nextDir s, dirLocked := False,
                     snake := advance (map savePrev (snake s)) nhx nhy\<rparr>"
        from tick_eats [OF pre b True] assms
        have g: "grow (food s) ?s2 = Some s'"
          by auto
        from grow_core [OF g] obtain fd where
          fd: "core s' = (Playing,
                 advance (map savePrev (snake s)) nhx nhy @
                   [last (advance (map savePrev (snake s)) nhx nhy)],
                 nextDir s, nextDir s, False, score s + 1, max (best s) (score s + 1),
                 (if score s + 1 > best s then saveBest (score s + 1) (store s) else store s),
                 fd)"
            "(food.x fd, food.y fd) \<notin> set (map cell
                 (advance (map savePrev (snake s)) nhx nhy @
                   [last (advance (map savePrev (snake s)) nhx nhy)]))"
          using pre(1) by auto
        show ?thesis
          using pre(1,2) b(5) refl fd
          unfolding nhx_def nhy_def by (rule ate)
      qed
    qed
  qed
qed

lemma keyToDir_cases:
  assumes "keyToDir k = Some nd"
  shows "nd = \<lparr>vec.x = 1, vec.y = 0\<rparr> \<or> nd = \<lparr>vec.x = - 1, vec.y = 0\<rparr> \<or>
         nd = \<lparr>vec.x = 0, vec.y = - 1\<rparr> \<or> nd = \<lparr>vec.x = 0, vec.y = 1\<rparr>"
  using assms by (auto simp: keyToDir_def split: if_splits)

lemma keyToDir_not_control:
  assumes "keyToDir k = Some nd"
  shows "k \<noteq> ''Enter''" "k \<noteq> '' ''" "k \<noteq> ''p''" "k \<noteq> ''P''" "k \<noteq> ''Escape''"
  using assms by (auto simp: keyToDir_def split: if_splits)

text \<open>What a key press that returns did.\<close>

lemma keydown_cases:
  assumes "keydown key now s = Some s'"
  obtains
    (start) "phase s \<noteq> Playing" "phase s \<noteq> Paused" "startGame now s = Some s'"
  | (phase) p where "core s' = core (s\<lparr>phase := p\<rparr>)" "p = Paused \<or> p = Playing"
      "phase s = Paused \<or> phase s = Playing"
  | (same) "s' = s"
  | (accept) nd where "phase s = Playing" "\<not> dirLocked s" "keyToDir key = Some nd"
      "\<not> (vec.x nd \<noteq> 0 \<and> vec.x nd = - vec.x (dir s))"
      "\<not> (vec.y nd \<noteq> 0 \<and> vec.y nd = - vec.y (dir s))"
      "s' = s\<lparr>nextDir := nd, dirLocked := True\<rparr>"
proof -
  define c1 where "c1 \<longleftrightarrow> (key = ''Enter'' \<or> key = '' '') \<and> phase s \<noteq> Playing \<and> phase s \<noteq> Paused"
  define c2 where "c2 \<longleftrightarrow> (key = ''p'' \<or> key = ''P'' \<or> key = ''Escape'') \<and> phase s = Playing"
  define c3 where "c3 \<longleftrightarrow>
    (key = ''p'' \<or> key = ''P'' \<or> key = ''Escape'' \<or> key = '' '') \<and> phase s = Paused"
  define c4 where "c4 \<longleftrightarrow> key = '' '' \<and> phase s = Playing"
  have kd: "keydown key now s =
    (if c1 then startGame now s
     else if c2 then Some (s\<lparr>phase := Paused\<rparr>)
     else if c3 then Some (s\<lparr>phase := Playing, lastTick := now\<rparr>)
     else if c4 then Some (s\<lparr>phase := Paused\<rparr>)
     else if phase s \<noteq> Playing \<or> dirLocked s then Some s
     else (case keyToDir key of
             None \<Rightarrow> Some s
           | Some nd \<Rightarrow>
               if vec.x nd \<noteq> 0 \<and> vec.x nd = - vec.x (dir s) then Some s
               else if vec.y nd \<noteq> 0 \<and> vec.y nd = - vec.y (dir s) then Some s
               else Some (s\<lparr>nextDir := nd, dirLocked := True\<rparr>)))"
    unfolding keydown_def c1_def c2_def c3_def c4_def by (rule refl)
  have p2: "c2 \<Longrightarrow> phase s = Playing" and p3: "c3 \<Longrightarrow> phase s = Paused"
    and p4: "c4 \<Longrightarrow> phase s = Playing"
    unfolding c2_def c3_def c4_def by blast+
  show ?thesis
  proof (cases c1)
    case True
    with assms kd have "startGame now s = Some s'" by simp
    moreover from True have "phase s \<noteq> Playing" "phase s \<noteq> Paused"
      unfolding c1_def by blast+
    ultimately show ?thesis using start by blast
  next
    case n1: False
    show ?thesis
    proof (cases c2)
      case True
      with n1 assms kd have "s' = s\<lparr>phase := Paused\<rparr>" by simp
      then have "core s' = core (s\<lparr>phase := Paused\<rparr>)" by simp
      then show ?thesis using p2 [OF True] by (intro phase [of Paused]) auto
    next
      case n2: False
      show ?thesis
      proof (cases c3)
        case True
        with n1 n2 assms kd have "s' = s\<lparr>phase := Playing, lastTick := now\<rparr>" by simp
        then have "core s' = core (s\<lparr>phase := Playing\<rparr>)" by (simp add: core_def)
        then show ?thesis using p3 [OF True] by (intro phase [of Playing]) auto
      next
        case n3: False
        show ?thesis
        proof (cases c4)
          case True
          with n1 n2 n3 assms kd have "s' = s\<lparr>phase := Paused\<rparr>" by simp
          then have "core s' = core (s\<lparr>phase := Paused\<rparr>)" by simp
          then show ?thesis using p4 [OF True] by (intro phase [of Paused]) auto
        next
          case n4: False
          note e = n1 n2 n3 n4
          show ?thesis
          proof (cases "phase s \<noteq> Playing \<or> dirLocked s")
            case True
            with e assms kd have "s' = s" by simp
            then show ?thesis by (rule same)
          next
            case False
            show ?thesis
            proof (cases "keyToDir key")
              case None
              with False e assms kd have "s' = s" by simp
              then show ?thesis by (rule same)
            next
              case (Some nd)
              show ?thesis
              proof (cases "(vec.x nd \<noteq> 0 \<and> vec.x nd = - vec.x (dir s)) \<or>
                  (vec.y nd \<noteq> 0 \<and> vec.y nd = - vec.y (dir s))")
                case True
                with Some False e assms kd have "s' = s" by (auto split: if_splits)
                then show ?thesis by (rule same)
              next
                case no: False
                with Some False e assms kd have "s' = s\<lparr>nextDir := nd, dirLocked := True\<rparr>"
                  by (auto split: if_splits)
                with no False Some show ?thesis by (intro accept [of nd]) auto
              qed
            qed
          qed
        qed
      qed
    qed
  qed
qed

lemma click_cases:
  assumes "click now s = Some s'"
  obtains
    (start) "startGame now s = Some s'"
  | (phase) "core s' = core (s\<lparr>phase := Playing\<rparr>)" "phase s = Paused"
proof (cases "phase s = Paused")
  case True
  with assms have "s' = s\<lparr>phase := Playing, lastTick := now\<rparr>" by (simp add: click_def)
  then have "core s' = core (s\<lparr>phase := Playing\<rparr>)" by (simp add: core_def)
  then show ?thesis using True by (rule phase)
next
  case False
  with assms have "startGame now s = Some s'" by (simp add: click_def)
  then show ?thesis by (rule start)
qed

lemma gameLoop_cases:
  assumes "gameLoop ts s = Some (Inr s')"
  obtains
    (no_tick) "core s' = core s"
  | (tick) s1 s2 where "core s1 = core s" "tick s1 = Some (Inr s2)" "core s' = core s2"
proof (cases "phase s = Playing \<and> ts - lastTick s \<ge> MOVE_MS")
  case False
  with assms have "s' = updateFloats (updateParticles (s\<lparr>frame := frame s + 1\<rparr>))"
    by (auto simp: gameLoop_def Let_def)
  then have "core s' = core s" by simp
  then show ?thesis by (rule no_tick)
next
  case True
  let ?s1 = "s\<lparr>frame := frame s + 1, lastTick := ts\<rparr>"
  from True assms obtain s2 where
    "tick ?s1 = Some (Inr s2)" "s' = updateFloats (updateParticles s2)"
    by (auto simp: gameLoop_def Let_def split: option.splits sum.splits)
  moreover have "core ?s1 = core s" by (simp add: core_def)
  moreover have "core (updateFloats (updateParticles s2)) = core s2" by simp
  ultimately show ?thesis using tick [of ?s1 s2] by simp
qed

text \<open>Every event that returns, seen through \<open>core\<close>.\<close>

lemma step_cases:
  assumes "step e s = Some (Inr s')"
  obtains
    (same) "core s' = core s"
  | (phase) p where "core s' = core (s\<lparr>phase := p\<rparr>)" "p = Paused \<or> p = Playing"
      "phase s = Paused \<or> phase s = Playing"
  | (start) fd where
      "core s' = (Playing, buildSnake, \<lparr>vec.x = 1, vec.y = 0\<rparr>, \<lparr>vec.x = 1, vec.y = 0\<rparr>, False,
                  0, best s, store s, fd)"
      "(food.x fd, food.y fd) \<notin> set (map cell buildSnake)"
  | (accept) key nd where "phase s = Playing" "\<not> dirLocked s" "keyToDir key = Some nd"
      "\<not> (vec.x nd \<noteq> 0 \<and> vec.x nd = - vec.x (dir s))"
      "\<not> (vec.y nd \<noteq> 0 \<and> vec.y nd = - vec.y (dir s))"
      "core s' = core (s\<lparr>nextDir := nd, dirLocked := True\<rparr>)"
  | (died) h t where "phase s = Playing" "snake s = h # t"
      "core s' = (Dead, map savePrev (snake s), nextDir s, nextDir s, False,
                  score s, best s, store s, food s)"
  | (moved) h t where "phase s = Playing" "snake s = h # t"
      "(segment.x h + vec.x (nextDir s), segment.y h + vec.y (nextDir s))
         \<notin> set (map cell (butlast (snake s)))"
      "core s' = (Playing,
                  advance (map savePrev (snake s))
                    (segment.x h + vec.x (nextDir s)) (segment.y h + vec.y (nextDir s)),
                  nextDir s, nextDir s, False, score s, best s, store s, food s)"
  | (ate) h t sn fd where "phase s = Playing" "snake s = h # t"
      "(segment.x h + vec.x (nextDir s), segment.y h + vec.y (nextDir s))
         \<notin> set (map cell (butlast (snake s)))"
      "sn = advance (map savePrev (snake s))
              (segment.x h + vec.x (nextDir s)) (segment.y h + vec.y (nextDir s))"
      "core s' = (Playing, sn @ [last sn], nextDir s, nextDir s, False,
                  score s + 1, max (best s) (score s + 1),
                  (if score s + 1 > best s then saveBest (score s + 1) (store s) else store s),
                  fd)"
      "(food.x fd, food.y fd) \<notin> set (map cell (sn @ [last sn]))"
proof -
  note r_same = same and r_phase = phase and r_start = start and r_accept = accept
    and r_died = died and r_moved = moved and r_ate = ate
  have of_tick: thesis if t: "tick s1 = Some (Inr s2)" and c1: "core s1 = core s"
    and c2: "core s' = core s2" for s1 s2
  proof -
    from c1 have f: "phase s1 = phase s" "snake s1 = snake s" "nextDir s1 = nextDir s"
      "score s1 = score s" "best s1 = best s" "store s1 = store s" "food s1 = food s"
      by (simp_all add: core_def)
    from t show thesis
    proof (cases rule: tick_cases)
      case idle
      with c1 c2 have "core s' = core s" by simp
      then show ?thesis by (rule r_same)
    next
      case (died h t)
      then show ?thesis
        using c2 unfolding f by (intro r_died [of h t]) simp_all
    next
      case (moved h t)
      then show ?thesis
        using c2 unfolding f by (intro r_moved [of h t]) simp_all
    next
      case (ate h t sn fd)
      then show ?thesis
        using c2 unfolding f by (intro r_ate [of h t sn fd]) simp_all
    qed
  qed
  have of_start: thesis if "startGame now s = Some s'" for now
    using startGame_core [OF that] r_start by blast
  show thesis
  proof (cases e)
    case Tick
    with assms have "tick s = Some (Inr s')" by simp
    then show ?thesis by (rule of_tick) simp_all
  next
    case (Frame ts)
    with assms have "gameLoop ts s = Some (Inr s')" by simp
    then show ?thesis
    proof (cases rule: gameLoop_cases)
      case no_tick
      then show ?thesis by (rule r_same)
    next
      case (tick s1 s2)
      from tick(2,1,3) show ?thesis by (rule of_tick)
    qed
  next
    case (KeyDown key now)
    with assms have "keydown key now s = Some s'" by simp
    then show ?thesis
    proof (cases rule: keydown_cases)
      case start
      from start(3) show ?thesis by (rule of_start)
    next
      case (phase p)
      then show ?thesis by (rule r_phase)
    next
      case same
      then have "core s' = core s" by simp
      then show ?thesis by (rule r_same)
    next
      case (accept nd)
      then show ?thesis by (intro r_accept [of key nd]) simp_all
    qed
  next
    case (Click now)
    with assms have "click now s = Some s'" by simp
    then show ?thesis
    proof (cases rule: click_cases)
      case start
      then show ?thesis by (rule of_start)
    next
      case phase
      then show ?thesis by (intro r_phase [of Playing]) simp_all
    qed
  qed
qed

lemma run_invariant:
  assumes "run es s = Some (Inr s')" and "I s"
    and "\<And>e s s'. I s \<Longrightarrow> step e s = Some (Inr s') \<Longrightarrow> I s'"
  shows "I s'"
  using assms(1,2)
proof (induction es arbitrary: s)
  case Nil
  then show ?case by simp
next
  case (Cons e es)
  from Cons.prems(1) obtain s1 where
    s1: "step e s = Some (Inr s1)" "run es s1 = Some (Inr s')"
    by (auto split: option.splits sum.splits)
  from assms(3) [OF Cons.prems(2) s1(1)] have "I s1" .
  with s1(2) show ?case by (rule Cons.IH)
qed

lemma run_append:
  "run (es @ es') s =
    (case run es s of None \<Rightarrow> None | Some (Inl err) \<Rightarrow> Some (Inl err)
     | Some (Inr s1) \<Rightarrow> run es' s1)"
  by (induction es arbitrary: s) (auto split: option.splits sum.splits)

section \<open>Claims about the cells of the creature\<close>

lemma segments_apart_savePrev [simp]:
  "segments_apart (map savePrev sn) \<longleftrightarrow> segments_apart sn"
proof (cases "sn = []")
  case True
  then show ?thesis by simp
next
  case False
  then have "cell (last (map savePrev sn)) = cell (last sn)"
    by (simp add: last_map)
  then show ?thesis
    by (simp add: segments_apart_def map_butlast [symmetric])
qed

lemma distinct_segments_apart:
  assumes "distinct (map cell sn)"
  shows "segments_apart sn"
proof (cases "sn = []")
  case True
  then show ?thesis by (simp add: segments_apart_def)
next
  case False
  let ?cs = "map cell sn"
  have ne: "?cs \<noteq> []" using False by simp
  have d: "distinct (butlast ?cs)" using assms by (rule distinct_butlast)
  have "distinct (butlast ?cs @ [last ?cs])"
    using assms ne by simp
  then have "last ?cs \<notin> set (butlast ?cs)"
    by (simp del: append_butlast_last_id)
  moreover have "set (butlast (butlast ?cs)) \<subseteq> set (butlast ?cs)"
    by (meson in_set_butlastD subsetI)
  ultimately have "last ?cs \<notin> set (butlast (butlast ?cs))" by blast
  with d False show ?thesis
    by (simp add: segments_apart_def map_butlast last_map)
qed

lemma moved_distinct:
  assumes "segments_apart sn" "sn \<noteq> []" "(a, b) \<notin> set (map cell (butlast sn))"
  shows "distinct (map cell (advance (map savePrev sn) a b))"
proof -
  have "map cell (advance (map savePrev sn) a b) = (a, b) # map cell (butlast sn)"
    using assms(2) by (simp add: cells_advance map_butlast [symmetric])
  with assms(1,3) show ?thesis
    by (simp add: segments_apart_def)
qed

lemma grown_apart:
  assumes "distinct (map cell sn)" "sn \<noteq> []"
  shows "segments_apart (sn @ [last sn])"
proof -
  have "map cell (butlast sn @ [last sn]) = map cell sn"
    using assms(2) by simp
  then have "distinct (map cell (butlast sn) @ [cell (last sn)])"
    using assms(1) by (simp del: append_butlast_last_id)
  then have "cell (last sn) \<notin> set (map cell (butlast sn))"
    by simp
  with assms(1) show ?thesis
    by (simp add: segments_apart_def)
qed

lemma buildSnake_distinct: "distinct (map cell buildSnake)"
  by (simp add: buildSnake_def Let_def cell_def GRID_def)

lemma step_segments_apart:
  assumes "segments_apart (snake s)" and "step e s = Some (Inr s')"
  shows "segments_apart (snake s')"
  using assms(2)
proof (cases rule: step_cases)
  case same
  with assms(1) show ?thesis by (simp add: core_def)
next
  case (phase p)
  with assms(1) show ?thesis by (simp add: core_def)
next
  case (start fd)
  then have "snake s' = buildSnake" by (simp add: core_def)
  then show ?thesis using buildSnake_distinct by (simp add: distinct_segments_apart)
next
  case (accept key nd)
  with assms(1) show ?thesis by (simp add: core_def)
next
  case (died h t)
  then have "snake s' = map savePrev (snake s)" by (simp add: core_def)
  with assms(1) show ?thesis by simp
next
  case (moved h t)
  then have sn: "snake s' = advance (map savePrev (snake s))
      (segment.x h + vec.x (nextDir s)) (segment.y h + vec.y (nextDir s))"
    by (simp add: core_def)
  have "snake s \<noteq> []" using moved(2) by simp
  from moved_distinct [OF assms(1) this moved(3)] show ?thesis
    unfolding sn by (rule distinct_segments_apart)
next
  case (ate h t sn fd)
  have ne: "snake s \<noteq> []" using ate(2) by simp
  have "distinct (map cell sn)"
    unfolding ate(4) by (rule moved_distinct [OF assms(1) ne ate(3)])
  moreover have "sn \<noteq> []" unfolding ate(4) using ne by simp
  ultimately have "segments_apart (sn @ [last sn])" by (rule grown_apart)
  moreover have "snake s' = sn @ [last sn]" using ate(5) by (simp add: core_def)
  ultimately show ?thesis by simp
qed

lemma tick_moved_distinct:
  assumes "segments_apart (snake s)" and "tick s = Some (Inr s')"
    and "phase s = Playing" and "phase s' = Playing"
    and "length (snake s') = length (snake s)"
  shows "distinct (map cell (snake s'))"
  using assms(2)
proof (cases rule: tick_cases)
  case idle
  with assms(3) show ?thesis by simp
next
  case (died h t)
  with assms(4) show ?thesis by (simp add: core_def)
next
  case (moved h t)
  then have sn: "snake s' = advance (map savePrev (snake s))
      (segment.x h + vec.x (nextDir s)) (segment.y h + vec.y (nextDir s))"
    by (simp add: core_def)
  have "snake s \<noteq> []" using moved(2) by simp
  from moved_distinct [OF assms(1) this moved(3)] show ?thesis
    unfolding sn .
next
  case (ate h t sn fd)
  then have "length (snake s') = Suc (length (snake s))"
    by (simp add: core_def)
  with assms(5) show ?thesis by simp
qed

lemma startGame_snake:
  assumes "startGame now s0 = Some s1"
  shows "snake s1 = buildSnake"
  using startGame_core [OF assms] by (auto simp: core_def)

lemma zeros_simps [simp]: "shd zeros = 0" "stl zeros = zeros" "zeros !! n = 0" "sdrop n zeros = zeros"
  "sset zeros = {0}"
  by (simp_all add: zeros_def)

lemma rndInt_0 [simp]: "rndInt n 0 = 0"
  by (simp add: rndInt_def)

lemma cells_buildSnake: "map cell buildSnake = [(10, 10), (9, 10), (8, 10)]"
  by (simp add: buildSnake_eq seg_def cell_def)

lemma startGame_zeros_store:
  "startGame 0 (init zeros st) =
     Some ((init zeros st)\<lparr>phase := Playing, snake := buildSnake,
        dir := \<lparr>vec.x = 1, vec.y = 0\<rparr>, nextDir := \<lparr>vec.x = 1, vec.y = 0\<rparr>,
        score := 0, particles := [], floatTexts := [], dirLocked := False, lastTick := 0,
        food := \<lparr>food.x = 0, food.y = 0, mush = 0\<rparr>, rng := zeros\<rparr>)"
proof -
  let ?s = "(init zeros st)\<lparr>phase := Playing, snake := buildSnake,
      dir := \<lparr>vec.x = 1, vec.y = 0\<rparr>, nextDir := \<lparr>vec.x = 1, vec.y = 0\<rparr>,
      score := 0, particles := [], floatTexts := [], dirLocked := False, lastTick := 0\<rparr>"
  have r: "rng ?s = zeros" by (simp add: init_def gs_def)
  have a: "attempt (rng ?s) 0 \<notin> set (map cell (snake ?s))"
    unfolding r by (simp add: attempt_0 cells_buildSnake)
  have b: "\<forall>j<0. attempt (rng ?s) j \<in> set (map cell (snake ?s))" by simp
  have "placeFood ?s = Some (?s\<lparr>food := \<lparr>food.x = 0, food.y = 0, mush = 0\<rparr>, rng := zeros\<rparr>)"
    unfolding placeFood_first [OF a b] r
    by (simp add: attempt_0)
  then show ?thesis by (simp add: startGame_def)
qed

lemma startGame_zeros: "startGame 0 (init zeros empty_store) = Some started"
  unfolding startGame_zeros_store started_def by simp

lemma ahead_simps:
  "shd ahead = 11 / 20" "shd (stl ahead) = 1 / 2" "shd (stl (stl ahead)) = 0"
  "stl (stl (stl ahead)) = zeros" "ahead !! 2 = 0" "sdrop 3 ahead = zeros"
  by (simp_all add: ahead_def eval_nat_numeral)

lemma startGame_ahead: "startGame 0 (init ahead empty_store) = Some started_ahead"
proof -
  let ?s = "(init ahead empty_store)\<lparr>phase := Playing, snake := buildSnake,
      dir := \<lparr>vec.x = 1, vec.y = 0\<rparr>, nextDir := \<lparr>vec.x = 1, vec.y = 0\<rparr>,
      score := 0, particles := [], floatTexts := [], dirLocked := False, lastTick := 0\<rparr>"
  have r: "rng ?s = ahead" by (simp add: init_def gs_def)
  have at: "attempt ahead 0 = (11, 10)"
    by (simp add: attempt_0 ahead_simps rndInt_def GRID_def)
  have a: "attempt (rng ?s) 0 \<notin> set (map cell (snake ?s))"
    unfolding r at by (simp add: cells_buildSnake)
  have b: "\<forall>j<0. attempt (rng ?s) j \<in> set (map cell (snake ?s))" by simp
  have "placeFood ?s = Some started_ahead"
    unfolding placeFood_first [OF a b] r at
    by (simp add: started_ahead_def started_def ahead_simps init_def gs_def)
  then show ?thesis by (simp add: startGame_def)
qed

lemma keydown_Enter_idle:
  "phase s = Idle \<Longrightarrow> keydown ''Enter'' now s = startGame now s"
  by (simp add: keydown_def)

lemma gameLoop_tick:
  assumes "phase s = Playing" "ts - lastTick s \<ge> MOVE_MS"
    and "tick (s\<lparr>frame := frame s + 1, lastTick := ts\<rparr>) = Some (Inr s2)"
  shows "gameLoop ts s = Some (Inr (updateFloats (updateParticles s2)))"
  using assms by (simp add: gameLoop_def Let_def)

lemma started_ahead_frame_facts:
  "phase (started_ahead\<lparr>frame := 1, lastTick := 140\<rparr>) = Playing"
  "snake (started_ahead\<lparr>frame := 1, lastTick := 140\<rparr>) =
     seg 10 10 10 10 # [seg 9 10 9 10, seg 8 10 8 10]"
  "(11::int) = segment.x (seg 10 10 10 10) + vec.x (nextDir (started_ahead\<lparr>frame := 1, lastTick := 140\<rparr>))"
  "(10::int) = segment.y (seg 10 10 10 10) + vec.y (nextDir (started_ahead\<lparr>frame := 1, lastTick := 140\<rparr>))"
  "(0::int) \<le> 11" "11 < GRID" "(0::int) \<le> 10" "10 < GRID"
  "(11, 10) \<notin> set (map cell (butlast (snake (started_ahead\<lparr>frame := 1, lastTick := 140\<rparr>))))"
  "(11, 10) = (food.x (food (started_ahead\<lparr>frame := 1, lastTick := 140\<rparr>)),
               food.y (food (started_ahead\<lparr>frame := 1, lastTick := 140\<rparr>)))"
  "attempt (sdrop 80 (rng (started_ahead\<lparr>frame := 1, lastTick := 140\<rparr>))) 0 \<notin>
     set ((11, 10) # map cell (butlast (snake (started_ahead\<lparr>frame := 1, lastTick := 140\<rparr>))))"
  by (simp_all add: started_ahead_def started_def init_def gs_def buildSnake_eq seg_def cell_def
      GRID_def attempt_0)

lemma started_ahead_frame_eats:
  obtains s2 where
    "gameLoop 140 started_ahead = Some (Inr (updateFloats (updateParticles s2)))"
    "grow (food started_ahead)
       (started_ahead\<lparr>frame := 1, lastTick := 140, dir := nextDir started_ahead,
          dirLocked := False,
          snake := advance (map savePrev (snake started_ahead)) 11 10\<rparr>) = Some s2"
proof -
  let ?s1 = "started_ahead\<lparr>frame := 1, lastTick := 140\<rparr>"
  from tick_eats_returns [OF started_ahead_frame_facts] obtain s2 where
    t: "tick ?s1 = Some (Inr s2)" and
    g: "grow (food ?s1) (?s1\<lparr>dir := nextDir ?s1, dirLocked := False,
          snake := advance (map savePrev (snake ?s1)) 11 10\<rparr>) = Some s2"
    by blast
  have f: "frame started_ahead + 1 = 1" "phase started_ahead = Playing"
    "140 - lastTick started_ahead \<ge> MOVE_MS"
    by (simp_all add: started_ahead_def started_def init_def gs_def MOVE_MS_def)
  have "gameLoop 140 started_ahead = Some (Inr (updateFloats (updateParticles s2)))"
    using gameLoop_tick [OF f(2,3)] t unfolding f(1) by simp
  moreover from g have "grow (food started_ahead)
       (started_ahead\<lparr>frame := 1, lastTick := 140, dir := nextDir started_ahead,
          dirLocked := False,
          snake := advance (map savePrev (snake started_ahead)) 11 10\<rparr>) = Some s2"
    by simp
  ultimately show ?thesis by (rule that)
qed

lemma keydown_Enter_ahead:
  "keydown ''Enter'' 0 (init ahead empty_store) = Some started_ahead"
  using startGame_ahead by (simp add: keydown_Enter_idle init_def gs_def)

lemma session_start_ahead:
  "run [KeyDown ''Enter'' 0] (init ahead empty_store) = Some (Inr started_ahead)"
  "trace [KeyDown ''Enter'' 0] (init ahead empty_store) = [init ahead empty_store, started_ahead]"
proof -
  note k = keydown_Enter_ahead
  then show "run [KeyDown ''Enter'' 0] (init ahead empty_store) = Some (Inr started_ahead)"
    by simp
  from k show "trace [KeyDown ''Enter'' 0] (init ahead empty_store) =
      [init ahead empty_store, started_ahead]"
    by simp
qed

text \<open>
  C1, as the code has it. In every state reachable from a fresh round start by ticks,
  frames, key presses and clicks, all segments but the last are on pairwise different
  cells and the last segment shares its cell with no segment other than the one before
  it. All segments are on different cells at the round start and in the state left by a
  tick that moved the creature without consuming the item.
\<close>

theorem reachable_segments_apart:
  assumes "startGame now s0 = Some s1" and "run es s1 = Some (Inr s)"
  shows "distinct (map cell (snake s1)) \<and> segments_apart (snake s) \<and>
         (\<forall>s'. tick s = Some (Inr s') \<and> phase s = Playing \<and> phase s' = Playing \<and>
               length (snake s') = length (snake s) \<longrightarrow>
               distinct (map cell (snake s')))"
proof -
  have d: "distinct (map cell (snake s1))"
    unfolding startGame_snake [OF assms(1)] by (rule buildSnake_distinct)
  then have "segments_apart (snake s1)" by (rule distinct_segments_apart)
  with assms(2) have a: "segments_apart (snake s)"
    by (rule run_invariant [where I = "\<lambda>s. segments_apart (snake s)"])
       (rule step_segments_apart)
  from d a tick_moved_distinct [OF a] show ?thesis by blast
qed

lemma started_up_tick:
  "\<exists>s'. tick (started\<lparr>nextDir := \<lparr>vec.x = 0, vec.y = - 1\<rparr>, dirLocked := True\<rparr>) = Some (Inr s') \<and>
        phase s' = Playing \<and> length (snake s') = 3"
proof -
  let ?s = "started\<lparr>nextDir := \<lparr>vec.x = 0, vec.y = - 1\<rparr>, dirLocked := True\<rparr>"
  have "tick ?s = Some (Inr (?s\<lparr>dir := nextDir ?s, dirLocked := False,
                  snake := advance (map savePrev (snake ?s)) 10 9\<rparr>))"
    by (rule tick_moves [of ?s "seg 10 10 10 10" "[seg 9 10 9 10, seg 8 10 8 10]"])
       (simp_all add: started_def init_def gs_def buildSnake_eq seg_def cell_def GRID_def)
  moreover have "phase ?s = Playing" "length (snake ?s) = 3"
    by (simp_all add: started_def init_def gs_def buildSnake_eq)
  ultimately show ?thesis by simp
qed

theorem reachable_segments_apart_witness:
  "startGame 0 (init zeros empty_store) = Some started \<and>
   run [KeyDown ''ArrowUp'' 1] started =
     Some (Inr (started\<lparr>nextDir := \<lparr>vec.x = 0, vec.y = - 1\<rparr>, dirLocked := True\<rparr>)) \<and>
   distinct (map cell (snake started)) \<and>
   segments_apart (snake (started\<lparr>nextDir := \<lparr>vec.x = 0, vec.y = - 1\<rparr>, dirLocked := True\<rparr>)) \<and>
   (\<exists>s'. tick (started\<lparr>nextDir := \<lparr>vec.x = 0, vec.y = - 1\<rparr>, dirLocked := True\<rparr>) = Some (Inr s') \<and>
         distinct (map cell (snake s')))"
proof -
  let ?s = "started\<lparr>nextDir := \<lparr>vec.x = 0, vec.y = - 1\<rparr>, dirLocked := True\<rparr>"
  have r: "run [KeyDown ''ArrowUp'' 1] started = Some (Inr ?s)"
    by (simp add: keydown_def keyToDir_def started_def init_def gs_def)
  from started_up_tick obtain s' where
    s': "tick ?s = Some (Inr s')" "phase s' = Playing" "length (snake s') = 3"
    by blast
  have p: "phase ?s = Playing" "length (snake ?s) = 3"
    by (simp_all add: started_def init_def gs_def buildSnake_eq)
  from reachable_segments_apart [OF startGame_zeros r] s' p
  have "distinct (map cell (snake started))" "segments_apart (snake ?s)"
    "distinct (map cell (snake s'))"
    by auto
  with startGame_zeros r s'(1) show ?thesis by blast
qed

text \<open>
  C1 as stated fails: start a round with the first item in the cell ahead of the head and
  let one frame run the tick; the state after that frame has two segments on cell (9, 10).
\<close>

theorem consuming_tick_leaves_two_segments_on_a_cell:
  "cells_after [KeyDown ''Enter'' 0, Frame 140] (init ahead empty_store) =
     Some [(11, 10), (10, 10), (9, 10), (9, 10)] \<and>
   \<not> distinct [(11, 10), (10, 10), (9, 10), (9::int, 10::int)]"
proof
  from started_ahead_frame_eats obtain s2 where
    gl: "gameLoop 140 started_ahead = Some (Inr (updateFloats (updateParticles s2)))" and
    g: "grow (food started_ahead)
       (started_ahead\<lparr>frame := 1, lastTick := 140, dir := nextDir started_ahead,
          dirLocked := False,
          snake := advance (map savePrev (snake started_ahead)) 11 10\<rparr>) = Some s2"
    by blast
  let ?sn = "advance (map savePrev (snake started_ahead)) 11 10"
  have sn: "snake s2 = ?sn @ [last ?sn]"
    using grow_Some(2) [OF g] by simp
  have sa: "snake started_ahead = [seg 10 10 10 10, seg 9 10 9 10, seg 8 10 8 10]"
    by (simp add: started_ahead_def started_def buildSnake_eq)
  have ne: "map savePrev (snake started_ahead) \<noteq> []" "?sn \<noteq> []"
    using sa by simp_all
  from ne(1) have "map cell ?sn = (11, 10) # map cell (butlast (map savePrev (snake started_ahead)))"
    by (rule cells_advance)
  also have "\<dots> = [(11, 10), (10, 10), (9, 10)]"
    unfolding sa by (simp add: seg_def cell_def savePrev_def)
  finally have c: "map cell ?sn = [(11, 10), (10, 10), (9, 10)]" .
  have "cell (last ?sn) = last (map cell ?sn)"
    using ne(2) by (simp add: last_map)
  then have l: "cell (last ?sn) = (9, 10)"
    unfolding c by simp
  have "map cell (snake s2) = [(11, 10), (10, 10), (9, 10), (9, 10)]"
    unfolding sn using c l by simp
  then show "cells_after [KeyDown ''Enter'' 0, Frame 140] (init ahead empty_store) =
     Some [(11, 10), (10, 10), (9, 10), (9, 10)]"
    by (simp add: cells_after_def keydown_Enter_ahead gl)
  show "\<not> distinct [(11, 10), (10, 10), (9, 10), (9::int, 10::int)]"
    by simp
qed

section \<open>Claims about directions\<close>

lemma unit_not_self_reverse: "unit_vec d \<Longrightarrow> \<not> reverse_of d d"
  by (auto simp: unit_vec_def reverse_of_def)

lemma accepted_not_reverse:
  assumes "keyToDir key = Some nd" "unit_vec d"
    and "\<not> (vec.x nd \<noteq> 0 \<and> vec.x nd = - vec.x d)"
    and "\<not> (vec.y nd \<noteq> 0 \<and> vec.y nd = - vec.y d)"
  shows "unit_vec nd \<and> \<not> reverse_of nd d"
  using keyToDir_cases [OF assms(1)] assms(2-4)
  by (auto simp: unit_vec_def reverse_of_def)

lemma reverse_rejected:
  assumes "keyToDir key = Some nd" "reverse_of nd d"
  shows "(vec.x nd \<noteq> 0 \<and> vec.x nd = - vec.x d) \<or> (vec.y nd \<noteq> 0 \<and> vec.y nd = - vec.y d)"
  using keyToDir_cases [OF assms(1)] assms(2)
  by (auto simp: reverse_of_def)

text \<open>The directions and the lock along a session.\<close>

lemma step_dirs:
  assumes "unit_vec (dir s) \<and> unit_vec (nextDir s) \<and> \<not> reverse_of (nextDir s) (dir s) \<and>
           (dirLocked s \<or> nextDir s = dir s)"
    and "step e s = Some (Inr s')"
  shows "unit_vec (dir s') \<and> unit_vec (nextDir s') \<and> \<not> reverse_of (nextDir s') (dir s') \<and>
         (dirLocked s' \<or> nextDir s' = dir s')"
  using assms(2)
proof (cases rule: step_cases)
  case same
  with assms(1) show ?thesis by (simp add: core_def)
next
  case (phase p)
  with assms(1) show ?thesis by (simp add: core_def)
next
  case (start fd)
  then have "dir s' = \<lparr>vec.x = 1, vec.y = 0\<rparr>" "nextDir s' = \<lparr>vec.x = 1, vec.y = 0\<rparr>"
    by (simp_all add: core_def)
  then show ?thesis by (simp add: unit_vec_def reverse_of_def)
next
  case (accept key nd)
  from accepted_not_reverse [OF accept(3) _ accept(4,5)] assms(1)
  have "unit_vec nd \<and> \<not> reverse_of nd (dir s)" by blast
  moreover from accept(6) have "dir s' = dir s" "nextDir s' = nd" "dirLocked s'"
    by (simp_all add: core_def)
  ultimately show ?thesis using assms(1) by simp
next
  case (died h t)
  then have "dir s' = nextDir s" "nextDir s' = nextDir s" by (simp_all add: core_def)
  with assms(1) show ?thesis by (simp add: unit_not_self_reverse)
next
  case (moved h t)
  then have "dir s' = nextDir s" "nextDir s' = nextDir s" by (simp_all add: core_def)
  with assms(1) show ?thesis by (simp add: unit_not_self_reverse)
next
  case (ate h t sn fd)
  then have "dir s' = nextDir s" "nextDir s' = nextDir s" by (simp_all add: core_def)
  with assms(1) show ?thesis by (simp add: unit_not_self_reverse)
qed

lemma keydown_playing:
  assumes "phase s = Playing" and "keydown key now s = Some s'"
  shows "(dirLocked s \<longrightarrow> nextDir s' = nextDir s) \<and> (nextDir s' \<noteq> nextDir s \<longrightarrow> dirLocked s') \<and>
         dir s' = dir s"
  using assms(2)
proof (cases rule: keydown_cases)
  case start
  with assms(1) show ?thesis by simp
next
  case (phase p)
  then show ?thesis by (simp add: core_def)
next
  case same
  then show ?thesis by simp
next
  case (accept nd)
  then show ?thesis by simp
qed

lemma hd_advance:
  assumes "sn \<noteq> []"
  shows "cell (hd (advance sn a b)) = (a, b)"
proof -
  have "hd (advance sn a b) = advance sn a b ! 0"
    using assms by (simp add: hd_conv_nth)
  also have "\<dots> = (sn ! 0)\<lparr>segment.x := a, segment.y := b\<rparr>"
    using assms by (simp add: advance_nth)
  finally show ?thesis by (simp add: cell_def)
qed

lemma tick_playing_dirs:
  assumes "phase s = Playing" and "tick s = Some (Inr s')"
  shows "\<not> dirLocked s' \<and> dir s' = nextDir s \<and> nextDir s' = nextDir s \<and>
         (phase s' = Dead \<or>
          cell (hd (snake s')) =
            (segment.x (hd (snake s)) + vec.x (nextDir s),
             segment.y (hd (snake s)) + vec.y (nextDir s)))"
  using assms(2)
proof (cases rule: tick_cases)
  case idle
  with assms(1) show ?thesis by simp
next
  case (died h t)
  then show ?thesis by (simp add: core_def)
next
  case (moved h t)
  then have "snake s' = advance (map savePrev (snake s))
      (segment.x h + vec.x (nextDir s)) (segment.y h + vec.y (nextDir s))"
    by (simp add: core_def)
  moreover have "map savePrev (snake s) \<noteq> []" using moved(2) by simp
  ultimately have "cell (hd (snake s')) =
      (segment.x h + vec.x (nextDir s), segment.y h + vec.y (nextDir s))"
    by (simp add: hd_advance)
  with moved show ?thesis by (simp add: core_def)
next
  case (ate h t sn fd)
  have ne: "map savePrev (snake s) \<noteq> []" using ate(2) by simp
  then have "sn \<noteq> []" unfolding ate(4) by simp
  moreover have "snake s' = sn @ [last sn]" using ate(5) by (simp add: core_def)
  ultimately have "hd (snake s') = hd sn" by simp
  then have "cell (hd (snake s')) =
      (segment.x h + vec.x (nextDir s), segment.y h + vec.y (nextDir s))"
    unfolding ate(4) using ne by (simp add: hd_advance)
  with ate show ?thesis by (simp add: core_def)
qed

lemma init_dirs:
  "unit_vec (dir (init rs st)) \<and> unit_vec (nextDir (init rs st)) \<and>
   \<not> reverse_of (nextDir (init rs st)) (dir (init rs st)) \<and>
   (dirLocked (init rs st) \<or> nextDir (init rs st) = dir (init rs st))"
  by (simp add: init_def gs_def unit_vec_def reverse_of_def)

text \<open>
  C10. In every state a session reaches from the page's initial state by frames, ticks,
  key presses and clicks, the committed and the queued direction are two of the four unit
  directions, the queued one is not the reverse of the committed one, and the two differ
  only while the lock is set. In phase playing a key press leaves the committed direction
  alone, changes nothing queued while the lock is set and sets the lock when it changes the
  queued direction; a tick that returns clears the lock, commits the queued direction and,
  unless it ends the round, puts the head one step in that direction, which is not the
  reverse of the direction committed before.
\<close>

theorem queued_direction_never_reverse_of_committed:
  assumes "run es (init rs st) = Some (Inr s)"
  shows "unit_vec (dir s) \<and> unit_vec (nextDir s) \<and> \<not> reverse_of (nextDir s) (dir s) \<and>
         (dirLocked s \<or> nextDir s = dir s) \<and>
         (\<forall>key now s'. phase s = Playing \<and> keydown key now s = Some s' \<longrightarrow>
            (dirLocked s \<longrightarrow> nextDir s' = nextDir s) \<and>
            (nextDir s' \<noteq> nextDir s \<longrightarrow> dirLocked s') \<and>
            dir s' = dir s \<and> \<not> reverse_of (nextDir s') (dir s')) \<and>
         (\<forall>s'. phase s = Playing \<and> tick s = Some (Inr s') \<longrightarrow>
            \<not> dirLocked s' \<and> dir s' = nextDir s \<and> nextDir s' = nextDir s \<and>
            \<not> reverse_of (dir s') (dir s) \<and>
            (phase s' = Dead \<or>
             cell (hd (snake s')) =
               (segment.x (hd (snake s)) + vec.x (nextDir s),
                segment.y (hd (snake s)) + vec.y (nextDir s))))"
proof -
  have inv: "unit_vec (dir s) \<and> unit_vec (nextDir s) \<and> \<not> reverse_of (nextDir s) (dir s) \<and>
         (dirLocked s \<or> nextDir s = dir s)"
    using assms init_dirs
    by (rule run_invariant
        [where I = "\<lambda>s. unit_vec (dir s) \<and> unit_vec (nextDir s) \<and>
           \<not> reverse_of (nextDir s) (dir s) \<and> (dirLocked s \<or> nextDir s = dir s)"])
       (rule step_dirs)
  have key: "(dirLocked s \<longrightarrow> nextDir s' = nextDir s) \<and>
            (nextDir s' \<noteq> nextDir s \<longrightarrow> dirLocked s') \<and>
            dir s' = dir s \<and> \<not> reverse_of (nextDir s') (dir s')"
    if "phase s = Playing \<and> keydown key now s = Some s'" for key now s'
  proof -
    from that have "step (KeyDown key now) s = Some (Inr s')" by simp
    from step_dirs [OF inv this] keydown_playing [of s key now s'] that
    show ?thesis by blast
  qed
  have tk: "\<not> dirLocked s' \<and> dir s' = nextDir s \<and> nextDir s' = nextDir s \<and>
            \<not> reverse_of (dir s') (dir s) \<and>
            (phase s' = Dead \<or>
             cell (hd (snake s')) =
               (segment.x (hd (snake s)) + vec.x (nextDir s),
                segment.y (hd (snake s)) + vec.y (nextDir s)))"
    if "phase s = Playing \<and> tick s = Some (Inr s')" for s'
    using tick_playing_dirs [of s s'] that inv by simp
  from inv key tk show ?thesis by blast
qed

lemma turned_up_fields:
  "phase turned_up = Playing" "dir turned_up = \<lparr>vec.x = 1, vec.y = 0\<rparr>"
  "nextDir turned_up = \<lparr>vec.x = 0, vec.y = - 1\<rparr>" "dirLocked turned_up"
  "snake turned_up = seg 10 10 10 10 # [seg 9 10 9 10, seg 8 10 8 10]"
  "food turned_up = \<lparr>food.x = 0, food.y = 0, mush = 0\<rparr>" "rng turned_up = zeros"
  "lastTick turned_up = 0" "frame turned_up = 0"
  by (simp_all add: turned_up_def started_def init_def gs_def buildSnake_eq)

lemma session_start_turn_up:
  "run [KeyDown ''Enter'' 0, KeyDown ''ArrowUp'' 1] (init zeros empty_store) = Some (Inr turned_up)"
proof -
  have "keydown ''Enter'' 0 (init zeros empty_store) = Some started"
    using startGame_zeros by (simp add: keydown_Enter_idle init_def gs_def)
  moreover have "keydown ''ArrowUp'' 1 started = Some turned_up"
    by (simp add: keydown_def keyToDir_def turned_up_def started_def init_def gs_def)
  ultimately show ?thesis by simp
qed

lemma turned_up_ignores_left: "keydown ''ArrowLeft'' 2 turned_up = Some turned_up"
  by (simp add: keydown_def turned_up_fields)

lemma turned_up_tick:
  "tick (turned_up\<lparr>frame := f, lastTick := l\<rparr>) =
     Some (Inr (turned_up\<lparr>frame := f, lastTick := l, dir := \<lparr>vec.x = 0, vec.y = - 1\<rparr>,
                  dirLocked := False,
                  snake := advance (map savePrev (snake turned_up)) 10 9\<rparr>))"
proof -
  let ?s = "turned_up\<lparr>frame := f, lastTick := l\<rparr>"
  have "tick ?s = Some (Inr (?s\<lparr>dir := nextDir ?s, dirLocked := False,
                  snake := advance (map savePrev (snake ?s)) 10 9\<rparr>))"
    by (rule tick_moves [of ?s "seg 10 10 10 10" "[seg 9 10 9 10, seg 8 10 8 10]"])
       (simp_all add: turned_up_fields seg_def cell_def GRID_def)
  then show ?thesis by (simp add: turned_up_fields)
qed

theorem queued_direction_never_reverse_of_committed_witness:
  "run [KeyDown ''Enter'' 0, KeyDown ''ArrowUp'' 1] (init zeros empty_store) = Some (Inr turned_up) \<and>
   unit_vec (dir turned_up) \<and> unit_vec (nextDir turned_up) \<and>
   \<not> reverse_of (nextDir turned_up) (dir turned_up) \<and>
   keydown ''ArrowLeft'' 2 turned_up = Some turned_up \<and>
   (\<exists>s'. tick turned_up = Some (Inr s') \<and> \<not> dirLocked s' \<and>
         dir s' = \<lparr>vec.x = 0, vec.y = - 1\<rparr> \<and> \<not> reverse_of (dir s') (dir turned_up) \<and>
         cell (hd (snake s')) = (10, 9))"
proof -
  note inst = queued_direction_never_reverse_of_committed [OF session_start_turn_up]
  have t0: "tick turned_up = tick (turned_up\<lparr>frame := frame turned_up, lastTick := lastTick turned_up\<rparr>)"
    by simp
  obtain s' where s': "tick turned_up = Some (Inr s')" "phase s' = Playing"
    unfolding t0 turned_up_tick by (simp add: turned_up_fields)
  from inst s'(1) turned_up_fields(1) have
    "\<not> dirLocked s' \<and> dir s' = nextDir turned_up \<and> \<not> reverse_of (dir s') (dir turned_up) \<and>
     (phase s' = Dead \<or>
      cell (hd (snake s')) =
        (segment.x (hd (snake turned_up)) + vec.x (nextDir turned_up),
         segment.y (hd (snake turned_up)) + vec.y (nextDir turned_up)))"
    by blast
  with s'(2) have "\<not> dirLocked s' \<and> dir s' = \<lparr>vec.x = 0, vec.y = - 1\<rparr> \<and>
      \<not> reverse_of (dir s') (dir turned_up) \<and> cell (hd (snake s')) = (10, 9)"
    by (simp add: turned_up_fields seg_def reverse_of_def)
  with s'(1) inst session_start_turn_up turned_up_ignores_left show ?thesis
    by blast
qed

lemma reverse_request_changes_nothing:
  assumes "phase s = Playing" and "keyToDir key = Some nd" and "reverse_of nd (dir s)"
  shows "keydown key now s = Some s"
  using assms(1,2) keyToDir_not_control [OF assms(2)] reverse_rejected [OF assms(2,3)]
  by (auto simp: keydown_def)

lemma between_step:
  assumes "between e s" and "phase s = Playing \<or> phase s = Paused"
    and "step e s = Some (Inr s')"
  shows "dir s' = dir s \<and> (phase s' = Playing \<or> phase s' = Paused)"
proof (cases e)
  case Tick
  with assms show ?thesis by (simp add: tick_not_playing)
next
  case (Frame ts)
  with assms have "\<not> (phase s = Playing \<and> ts - lastTick s \<ge> MOVE_MS)" by auto
  with Frame assms(3) have "s' = updateFloats (updateParticles (s\<lparr>frame := frame s + 1\<rparr>))"
    by (auto simp: gameLoop_def Let_def)
  with assms(2) show ?thesis by simp
next
  case (KeyDown key now)
  with assms(3) have "keydown key now s = Some s'" by simp
  then show ?thesis
  proof (cases rule: keydown_cases)
    case start
    with assms(2) show ?thesis by blast
  next
    case (phase p)
    then show ?thesis by (auto simp: core_def)
  next
    case same
    with assms(2) show ?thesis by simp
  next
    case (accept nd)
    then show ?thesis by simp
  qed
next
  case (Click now)
  with assms(1,3) have "s' = s\<lparr>phase := Playing, lastTick := now\<rparr>"
    by (simp add: click_def)
  then show ?thesis by simp
qed

lemma quiet_run:
  assumes "quiet ks s" and "phase s = Playing \<or> phase s = Paused"
    and "run ks s = Some (Inr s1)"
  shows "dir s1 = dir s \<and> (phase s1 = Playing \<or> phase s1 = Paused)"
  using assms
proof (induction ks arbitrary: s)
  case Nil
  then show ?case by simp
next
  case (Cons e ks)
  from Cons.prems(3) obtain s' where
    s': "step e s = Some (Inr s')" "run ks s' = Some (Inr s1)"
    by (auto split: option.splits sum.splits)
  from Cons.prems(1) s'(1) have q: "between e s" "quiet ks s'" by simp_all
  from between_step [OF q(1) Cons.prems(2) s'(1)] have
    b: "dir s' = dir s" "phase s' = Playing \<or> phase s' = Paused"
    by blast+
  from Cons.IH [OF q(2) b(2) s'(2)] b(1) show ?case by simp
qed

lemma ticks_step_dir:
  assumes "ticks e s" and "step e s = Some (Inr s')"
  shows "dir s' = nextDir s"
proof (cases e)
  case Tick
  with assms tick_playing_dirs [of s s'] show ?thesis by simp
next
  case (Frame ts)
  let ?s1 = "s\<lparr>frame := frame s + 1, lastTick := ts\<rparr>"
  from Frame assms obtain s2 where
    s2: "tick ?s1 = Some (Inr s2)" "s' = updateFloats (updateParticles s2)"
    by (auto simp: gameLoop_def Let_def split: option.splits sum.splits)
  have "phase ?s1 = Playing" using Frame assms(1) by simp
  from tick_playing_dirs [OF this s2(1)] have "dir s2 = nextDir s" by simp
  with s2(2) show ?thesis by simp
next
  case (KeyDown key now)
  with assms(1) show ?thesis by simp
next
  case (Click now)
  with assms(1) show ?thesis by simp
qed

lemma ticks_step_returns:
  assumes "ticks e s" and "snake s = h # t"
    and "(segment.x h + vec.x (nextDir s), segment.y h + vec.y (nextDir s)) \<noteq>
           (food.x (food s), food.y (food s)) \<or>
         attempt (sdrop 80 (rng s)) k \<notin>
           set ((segment.x h + vec.x (nextDir s), segment.y h + vec.y (nextDir s)) #
                map cell (butlast (snake s)))"
  shows "\<exists>s'. step e s = Some (Inr s')"
proof (cases e)
  case Tick
  with assms(1) have "phase s = Playing" by simp
  from tick_returns_off_item [OF this assms(2) refl refl assms(3)] Tick show ?thesis by simp
next
  case (Frame ts)
  let ?s1 = "s\<lparr>frame := frame s + 1, lastTick := ts\<rparr>"
  from Frame assms(1) have d: "phase s = Playing" "ts - lastTick s \<ge> MOVE_MS" by simp_all
  have p: "phase ?s1 = Playing" "snake ?s1 = h # t"
    "(segment.x h + vec.x (nextDir ?s1), segment.y h + vec.y (nextDir ?s1)) \<noteq>
       (food.x (food ?s1), food.y (food ?s1)) \<or>
     attempt (sdrop 80 (rng ?s1)) k \<notin>
       set ((segment.x h + vec.x (nextDir ?s1), segment.y h + vec.y (nextDir ?s1)) #
            map cell (butlast (snake ?s1)))"
    using d(1) assms(2,3) by simp_all
  have "\<exists>s2. tick ?s1 = Some (Inr s2)"
    by (rule tick_returns_off_item [OF p(1,2) refl refl p(3)])
  then obtain s2 where "tick ?s1 = Some (Inr s2)" by blast
  from gameLoop_tick [OF d this] Frame show ?thesis by simp
next
  case (KeyDown key now)
  with assms(1) show ?thesis by simp
next
  case (Click now)
  with assms(1) show ?thesis by simp
qed

text \<open>Outside phase idle the creature has segments.\<close>

lemma step_snake_nonempty:
  assumes "phase s = Idle \<or> snake s \<noteq> []" and "step e s = Some (Inr s')"
  shows "phase s' = Idle \<or> snake s' \<noteq> []"
  using assms(2)
proof (cases rule: step_cases)
  case same
  with assms(1) show ?thesis by (simp add: core_def)
next
  case (phase p)
  with assms(1) show ?thesis by (auto simp: core_def)
next
  case (start fd)
  then show ?thesis by (simp add: core_def buildSnake_def Let_def)
next
  case (accept key nd)
  with assms(1) show ?thesis by (simp add: core_def)
next
  case (died h t)
  then show ?thesis by (simp add: core_def)
next
  case (moved h t)
  then show ?thesis by (simp add: core_def)
next
  case (ate h t sn fd)
  then show ?thesis by (simp add: core_def)
qed

text \<open>
  C7, as the code has it. In a state that a session reaches in phase playing, a request
  for the exact reverse of the committed direction leaves the whole state as it was,
  queued direction and lock included, so the session goes on as if the request had not
  been made. After the request and any events that follow it before the next tick (key
  presses, pauses and resumes, frames and calls that run no tick), the committed direction
  is still the same, and if the next tick returns it does not commit the requested
  direction: it commits the direction queued when it runs, which is not the reverse of the
  previously committed one and is the previously committed one whenever the lock is clear
  at that moment. That tick returns when its candidate head cell is not the item's cell or
  the placement loop draws a free cell in some round.
\<close>

theorem reverse_request_rejected_next_tick_commits_queued:
  assumes "run es0 (init rs st) = Some (Inr s)" and "phase s = Playing"
    and "keyToDir key = Some nd" and "reverse_of nd (dir s)"
  shows "keydown key now s = Some s \<and>
         (\<forall>es. run (KeyDown key now # es) s = run es s) \<and>
         (\<forall>ks s1 e. quiet ks s \<and> run (KeyDown key now # ks) s = Some (Inr s1) \<and> ticks e s1 \<longrightarrow>
            dir s1 = dir s \<and>
            (\<forall>s2. step e s1 = Some (Inr s2) \<longrightarrow>
               dir s2 = nextDir s1 \<and> dir s2 \<noteq> nd \<and> \<not> reverse_of (dir s2) (dir s) \<and>
               (dirLocked s1 \<or> dir s2 = dir s)) \<and>
            (\<forall>k. (segment.x (hd (snake s1)) + vec.x (nextDir s1),
                  segment.y (hd (snake s1)) + vec.y (nextDir s1)) \<noteq>
                   (food.x (food s1), food.y (food s1)) \<or>
                 attempt (sdrop 80 (rng s1)) k \<notin>
                   set ((segment.x (hd (snake s1)) + vec.x (nextDir s1),
                         segment.y (hd (snake s1)) + vec.y (nextDir s1)) #
                        map cell (butlast (snake s1))) \<longrightarrow>
                 (\<exists>s2. step e s1 = Some (Inr s2))))"
proof -
  have same: "keydown key now s = Some s"
    by (rule reverse_request_changes_nothing [OF assms(2-4)])
  then have skip: "run (KeyDown key now # es) s = run es s" for es
    by simp
  have after: "dir s1 = dir s \<and>
            (\<forall>s2. step e s1 = Some (Inr s2) \<longrightarrow>
               dir s2 = nextDir s1 \<and> dir s2 \<noteq> nd \<and> \<not> reverse_of (dir s2) (dir s) \<and>
               (dirLocked s1 \<or> dir s2 = dir s)) \<and>
            (\<forall>k. (segment.x (hd (snake s1)) + vec.x (nextDir s1),
                  segment.y (hd (snake s1)) + vec.y (nextDir s1)) \<noteq>
                   (food.x (food s1), food.y (food s1)) \<or>
                 attempt (sdrop 80 (rng s1)) k \<notin>
                   set ((segment.x (hd (snake s1)) + vec.x (nextDir s1),
                         segment.y (hd (snake s1)) + vec.y (nextDir s1)) #
                        map cell (butlast (snake s1))) \<longrightarrow>
                 (\<exists>s2. step e s1 = Some (Inr s2)))"
    if h: "quiet ks s \<and> run (KeyDown key now # ks) s = Some (Inr s1) \<and> ticks e s1"
    for ks s1 e
  proof -
    from h skip have r: "run ks s = Some (Inr s1)" and q: "quiet ks s" and t: "ticks e s1"
      by simp_all
    have whole: "run (es0 @ ks) (init rs st) = Some (Inr s1)"
      unfolding run_append using assms(1) r by simp
    have inv: "unit_vec (dir s1) \<and> unit_vec (nextDir s1) \<and>
        \<not> reverse_of (nextDir s1) (dir s1) \<and> (dirLocked s1 \<or> nextDir s1 = dir s1)"
      using whole init_dirs
      by (rule run_invariant
          [where I = "\<lambda>s. unit_vec (dir s) \<and> unit_vec (nextDir s) \<and>
             \<not> reverse_of (nextDir s) (dir s) \<and> (dirLocked s \<or> nextDir s = dir s)"])
         (rule step_dirs)
    have "phase (init rs st) = Idle \<or> snake (init rs st) \<noteq> []"
      by (simp add: init_def gs_def)
    with whole have "phase s1 = Idle \<or> snake s1 \<noteq> []"
      by (rule run_invariant [where I = "\<lambda>s. phase s = Idle \<or> snake s \<noteq> []"])
         (rule step_snake_nonempty)
    moreover from t have "phase s1 = Playing" by (cases e) simp_all
    ultimately obtain h1 t1 where sn: "snake s1 = h1 # t1"
      by (cases "snake s1") auto
    from quiet_run [OF q _ r] assms(2) have d: "dir s1 = dir s" by blast
    have tk: "dir s2 = nextDir s1 \<and> dir s2 \<noteq> nd \<and> \<not> reverse_of (dir s2) (dir s) \<and>
               (dirLocked s1 \<or> dir s2 = dir s)"
      if "step e s1 = Some (Inr s2)" for s2
    proof -
      from ticks_step_dir [OF t that] have c: "dir s2 = nextDir s1" .
      with inv d have n: "\<not> reverse_of (dir s2) (dir s)" "dirLocked s1 \<or> dir s2 = dir s"
        by auto
      with assms(4) have "dir s2 \<noteq> nd" by auto
      with c n show ?thesis by blast
    qed
    have ret: "\<exists>s2. step e s1 = Some (Inr s2)"
      if "(segment.x (hd (snake s1)) + vec.x (nextDir s1),
           segment.y (hd (snake s1)) + vec.y (nextDir s1)) \<noteq>
            (food.x (food s1), food.y (food s1)) \<or>
          attempt (sdrop 80 (rng s1)) k \<notin>
                   set ((segment.x (hd (snake s1)) + vec.x (nextDir s1),
                         segment.y (hd (snake s1)) + vec.y (nextDir s1)) #
                        map cell (butlast (snake s1)))" for k
      using ticks_step_returns [OF t sn, of k] that unfolding sn by simp
    from d tk ret show ?thesis by blast
  qed
  from same skip after show ?thesis by blast
qed

lemma session_started: "run [KeyDown ''Enter'' 0] (init zeros empty_store) = Some (Inr started)"
proof -
  have "keydown ''Enter'' 0 (init zeros empty_store) = Some started"
    using startGame_zeros by (simp add: keydown_Enter_idle init_def gs_def)
  then show ?thesis by simp
qed

lemma started_fields:
  "phase started = Playing" "dir started = \<lparr>vec.x = 1, vec.y = 0\<rparr>"
  "nextDir started = \<lparr>vec.x = 1, vec.y = 0\<rparr>" "\<not> dirLocked started"
  "snake started = seg 10 10 10 10 # [seg 9 10 9 10, seg 8 10 8 10]"
  "food started = \<lparr>food.x = 0, food.y = 0, mush = 0\<rparr>" "rng started = zeros"
  "lastTick started = 0" "frame started = 0"
  by (simp_all add: started_def init_def gs_def buildSnake_eq)

theorem reverse_request_rejected_next_tick_commits_queued_witness:
  "keydown ''ArrowLeft'' 1 started = Some started \<and>
   run [KeyDown ''ArrowLeft'' 1, KeyDown ''ArrowUp'' 2] started = Some (Inr turned_up) \<and>
   dir turned_up = dir started \<and>
   (\<exists>s2. step Tick started = Some (Inr s2) \<and> dir s2 = \<lparr>vec.x = 1, vec.y = 0\<rparr>) \<and>
   (\<exists>s2. step (Frame 140) turned_up = Some (Inr s2) \<and> dir s2 = \<lparr>vec.x = 0, vec.y = - 1\<rparr> \<and>
         dir s2 \<noteq> \<lparr>vec.x = - 1, vec.y = 0\<rparr>)"
proof -
  have f: "phase started = Playing" "keyToDir ''ArrowLeft'' = Some \<lparr>vec.x = - 1, vec.y = 0\<rparr>"
    "reverse_of \<lparr>vec.x = - 1, vec.y = 0\<rparr> (dir started)"
    by (simp_all add: started_fields keyToDir_def reverse_of_def)
  note inst = reverse_request_rejected_next_tick_commits_queued [OF session_started f, of 1]
  from inst have k: "keydown ''ArrowLeft'' 1 started = Some started" by blast
  have up: "keydown ''ArrowUp'' 2 started = Some turned_up"
    by (simp add: keydown_def keyToDir_def turned_up_def started_fields)
  have r2: "run [KeyDown ''ArrowLeft'' 1, KeyDown ''ArrowUp'' 2] started = Some (Inr turned_up)"
    using k up by simp
  have r0: "run [KeyDown ''ArrowLeft'' 1] started = Some (Inr started)"
    using k by simp
  have q2: "quiet [KeyDown ''ArrowUp'' 2] started" "quiet [] started"
    by (simp_all add: up)
  have t2: "ticks (Frame 140) turned_up" "ticks Tick started"
    by (simp_all add: turned_up_fields started_fields MOVE_MS_def)
  have free2: "attempt (sdrop 80 (rng turned_up)) 0 \<notin>
      set ((segment.x (hd (snake turned_up)) + vec.x (nextDir turned_up),
            segment.y (hd (snake turned_up)) + vec.y (nextDir turned_up)) #
           map cell (butlast (snake turned_up)))"
    by (simp add: turned_up_fields attempt_0 seg_def cell_def)
  have free0: "attempt (sdrop 80 (rng started)) 0 \<notin>
      set ((segment.x (hd (snake started)) + vec.x (nextDir started),
            segment.y (hd (snake started)) + vec.y (nextDir started)) #
           map cell (butlast (snake started)))"
    by (simp add: started_fields attempt_0 seg_def cell_def)
  from inst q2(1) r2 t2(1) have a2: "dir turned_up = dir started"
    "\<forall>s2. step (Frame 140) turned_up = Some (Inr s2) \<longrightarrow>
       dir s2 = nextDir turned_up \<and> dir s2 \<noteq> \<lparr>vec.x = - 1, vec.y = 0\<rparr>"
    "\<forall>k. attempt (sdrop 80 (rng turned_up)) k \<notin>
      set ((segment.x (hd (snake turned_up)) + vec.x (nextDir turned_up),
            segment.y (hd (snake turned_up)) + vec.y (nextDir turned_up)) #
           map cell (butlast (snake turned_up))) \<longrightarrow>
       (\<exists>s2. step (Frame 140) turned_up = Some (Inr s2))"
    by blast+
  from a2(3) free2 obtain s2 where s2: "step (Frame 140) turned_up = Some (Inr s2)" by blast
  with a2(2) have d2: "dir s2 = \<lparr>vec.x = 0, vec.y = - 1\<rparr>" "dir s2 \<noteq> \<lparr>vec.x = - 1, vec.y = 0\<rparr>"
    by (simp_all add: turned_up_fields)
  from inst q2(2) r0 t2(2) have a0:
    "\<forall>s2. step Tick started = Some (Inr s2) \<longrightarrow>
       dir s2 = nextDir started \<and> (dirLocked started \<or> dir s2 = dir started)"
    "\<forall>k. attempt (sdrop 80 (rng started)) k \<notin>
      set ((segment.x (hd (snake started)) + vec.x (nextDir started),
            segment.y (hd (snake started)) + vec.y (nextDir started)) #
           map cell (butlast (snake started))) \<longrightarrow>
       (\<exists>s2. step Tick started = Some (Inr s2))"
    by blast+
  from a0(2) free0 obtain s0 where s0: "step Tick started = Some (Inr s0)" by blast
  with a0(1) have d0: "dir s0 = \<lparr>vec.x = 1, vec.y = 0\<rparr>"
    by (simp add: started_fields)
  from k r2 a2(1) s0 d0 s2 d2 show ?thesis by blast
qed

text \<open>
  C7 as stated fails: moving right, an accepted request to turn up is followed, before
  the tick, by a request to turn left. The request is rejected and the committed direction
  is still right, but after the next frame's tick the active direction is up, not right.
\<close>

theorem reverse_request_after_queued_turn:
  "dir_after [KeyDown ''Enter'' 0, KeyDown ''ArrowUp'' 1, KeyDown ''ArrowLeft'' 2]
     (init zeros empty_store) = Some \<lparr>vec.x = 1, vec.y = 0\<rparr> \<and>
   dir_after [KeyDown ''Enter'' 0, KeyDown ''ArrowUp'' 1, KeyDown ''ArrowLeft'' 2, Frame 140]
     (init zeros empty_store) = Some \<lparr>vec.x = 0, vec.y = - 1\<rparr>"
proof -
  have r2: "run [KeyDown ''Enter'' 0, KeyDown ''ArrowUp'' 1] (init zeros empty_store) =
      Some (Inr turned_up)"
    by (rule session_start_turn_up)
  have r3: "run ([KeyDown ''Enter'' 0, KeyDown ''ArrowUp'' 1] @ [KeyDown ''ArrowLeft'' 2])
      (init zeros empty_store) = Some (Inr turned_up)"
    unfolding run_append r2 by (simp add: turned_up_ignores_left)
  let ?s2 = "turned_up\<lparr>frame := 1, lastTick := 140, dir := \<lparr>vec.x = 0, vec.y = - 1\<rparr>,
                  dirLocked := False,
                  snake := advance (map savePrev (snake turned_up)) 10 9\<rparr>"
  have "tick (turned_up\<lparr>frame := frame turned_up + 1, lastTick := 140\<rparr>) = Some (Inr ?s2)"
    unfolding turned_up_tick by (simp add: turned_up_fields)
  then have gl: "gameLoop 140 turned_up = Some (Inr (updateFloats (updateParticles ?s2)))"
    by (intro gameLoop_tick) (simp_all add: turned_up_fields MOVE_MS_def)
  have r4: "run (([KeyDown ''Enter'' 0, KeyDown ''ArrowUp'' 1] @ [KeyDown ''ArrowLeft'' 2]) @
      [Frame 140]) (init zeros empty_store) = Some (Inr (updateFloats (updateParticles ?s2)))"
    unfolding run_append [of _ "[Frame 140]"] r3 by (simp add: gl)
  from r3 r4 show ?thesis
    by (simp add: dir_after_def turned_up_fields)
qed

section \<open>Claims about the best score\<close>

lemma trace_Cons: "\<exists>tr. trace es s = s # tr"
  by (cases es) simp_all

lemma trace_Max:
  "Max (score ` set (trace es s)) \<ge> score s"
proof -
  obtain tr where "trace es s = s # tr" using trace_Cons by blast
  then show ?thesis by simp
qed

lemma loadBest_saveBest: "accessible st \<Longrightarrow> loadBest (saveBest n st) = n"
  by (simp add: loadBest_def saveBest_def)

lemma step_best:
  assumes "0 \<le> best s" and "score s \<le> best s" and "step e s = Some (Inr s')"
  shows "best s' = max (best s) (score s') \<and> score s' \<le> best s' \<and>
         (best s < score s' \<longrightarrow> store s' = saveBest (score s') (store s))"
  using assms(3)
proof (cases rule: step_cases)
  case same
  with assms(1,2) show ?thesis by (simp add: core_def)
next
  case (phase p)
  with assms(1,2) show ?thesis by (simp add: core_def)
next
  case (start fd)
  with assms(1,2) show ?thesis by (simp add: core_def)
next
  case (accept key nd)
  with assms(1,2) show ?thesis by (simp add: core_def)
next
  case (died h t)
  with assms(1,2) show ?thesis by (simp add: core_def)
next
  case (moved h t)
  with assms(1,2) show ?thesis by (simp add: core_def)
next
  case (ate h t sn fd)
  then have "score s' = score s + 1" "best s' = max (best s) (score s + 1)"
    "store s' = (if score s + 1 > best s then saveBest (score s + 1) (store s) else store s)"
    by (simp_all add: core_def)
  then show ?thesis by simp
qed

lemma run_best:
  assumes "0 \<le> best s0" and "score s0 \<le> best s0" and "run es s0 = Some (Inr s)"
  shows "best s = max (best s0) (Max (score ` set (trace es s0))) \<and>
         0 \<le> best s \<and> score s \<le> best s \<and> best s0 \<le> best s"
  using assms
proof (induction es arbitrary: s0)
  case Nil
  then show ?case by simp
next
  case (Cons e es)
  from Cons.prems(3) obtain s1 where
    s1: "step e s0 = Some (Inr s1)" "run es s1 = Some (Inr s)"
    by (auto split: option.splits sum.splits)
  from step_best [OF Cons.prems(1,2) s1(1)] have
    b1: "best s1 = max (best s0) (score s1)" "score s1 \<le> best s1"
    by blast+
  then have "0 \<le> best s1" using Cons.prems(1) by simp
  from Cons.IH [OF this b1(2) s1(2)] have
    ih: "best s = max (best s1) (Max (score ` set (trace es s1)))"
        "0 \<le> best s" "score s \<le> best s" "best s1 \<le> best s"
    by blast+
  let ?M = "Max (score ` set (trace es s1))"
  have m: "score s1 \<le> ?M" by (rule trace_Max)
  obtain tr where tr: "trace es s1 = s1 # tr" using trace_Cons by blast
  have "trace (e # es) s0 = s0 # trace es s1"
    using s1(1) by simp
  then have "Max (score ` set (trace (e # es) s0)) = max (score s0) ?M"
    unfolding tr by simp
  moreover have "max (best s1) ?M = max (best s0) (max (score s0) ?M)"
    using b1(1) m Cons.prems(2) by simp
  ultimately have "best s = max (best s0) (Max (score ` set (trace (e # es) s0)))"
    using ih(1) by simp
  moreover have "best s0 \<le> best s" using b1(1) ih(4) by simp
  ultimately show ?case using ih(2,3) by blast
qed

lemma init_best: "best (init rs st) = loadBest st" "score (init rs st) = 0"
  by (simp_all add: init_def gs_def)

text \<open>
  C6, as the code has it. When the value loaded at startup is not negative: in every
  state of a session the best score is the maximum of the loaded value and the round
  scores of all states the session has passed through; it never decreases as the session
  goes on; and an event that takes the round score above it sets it to that score and
  hands that score to \<open>saveBest\<close>, after which an accessible store reads back the new best.
\<close>

theorem best_is_max_of_loaded_and_round_scores:
  assumes "0 \<le> loadBest st" and "run es (init rs st) = Some (Inr s)"
  shows "best s = max (loadBest st) (Max (score ` set (trace es (init rs st)))) \<and>
         (\<forall>es' s'. run es' s = Some (Inr s') \<longrightarrow> best s \<le> best s') \<and>
         (\<forall>e s'. step e s = Some (Inr s') \<and> best s < score s' \<longrightarrow>
            best s' = score s' \<and> store s' = saveBest (score s') (store s) \<and>
            (accessible (store s) \<longrightarrow> loadBest (store s') = best s'))"
proof -
  have i: "0 \<le> best (init rs st)" "score (init rs st) \<le> best (init rs st)"
    using assms(1) by (simp_all add: init_best)
  from run_best [OF i assms(2)] have
    b: "best s = max (loadBest st) (Max (score ` set (trace es (init rs st))))"
       "0 \<le> best s" "score s \<le> best s"
    by (simp_all add: init_best)
  have mono: "best s \<le> best s'" if "run es' s = Some (Inr s')" for es' s'
    using run_best [OF b(2,3) that] by blast
  have upd: "best s' = score s' \<and> store s' = saveBest (score s') (store s) \<and>
            (accessible (store s) \<longrightarrow> loadBest (store s') = best s')"
    if "step e s = Some (Inr s') \<and> best s < score s'" for e s'
  proof -
    from step_best [OF b(2,3), of e s'] that have
      "best s' = max (best s) (score s')" "store s' = saveBest (score s') (store s)"
      by blast+
    with that show ?thesis by (simp add: loadBest_saveBest)
  qed
  from b(1) mono upd show ?thesis by blast
qed

theorem best_is_max_of_loaded_and_round_scores_witness:
  "0 \<le> loadBest empty_store \<and>
   run [KeyDown ''Enter'' 0] (init ahead empty_store) = Some (Inr started_ahead) \<and>
   best started_ahead =
     max (loadBest empty_store)
         (Max (score ` set (trace [KeyDown ''Enter'' 0] (init ahead empty_store)))) \<and>
   (\<exists>s'. step (Frame 140) started_ahead = Some (Inr s') \<and> best started_ahead < score s' \<and>
         best s' = score s' \<and> store s' = saveBest (score s') (store started_ahead) \<and>
         loadBest (store s') = best s' \<and> best started_ahead \<le> best s' \<and> score s' = 1)"
proof -
  have l: "0 \<le> loadBest empty_store"
    by (simp add: loadBest_def empty_store_def)
  note inst = best_is_max_of_loaded_and_round_scores [OF l session_start_ahead(1)]
  from started_ahead_frame_eats obtain s2 where
    gl: "gameLoop 140 started_ahead = Some (Inr (updateFloats (updateParticles s2)))" and
    g: "grow (food started_ahead)
       (started_ahead\<lparr>frame := 1, lastTick := 140, dir := nextDir started_ahead,
          dirLocked := False,
          snake := advance (map savePrev (snake started_ahead)) 11 10\<rparr>) = Some s2"
    by blast
  let ?s' = "updateFloats (updateParticles s2)"
  have st: "step (Frame 140) started_ahead = Some (Inr ?s')" using gl by simp
  then have rn: "run [Frame 140] started_ahead = Some (Inr ?s')" by simp
  have f: "score started_ahead = 0" "best started_ahead = 0"
    "accessible (store started_ahead)"
    by (simp_all add: started_ahead_def started_def init_def gs_def loadBest_def empty_store_def)
  have sc: "score ?s' = 1" using grow_Some(1) [OF g] f(1) by simp
  then have lt: "best started_ahead < score ?s'" using f(2) by simp
  from inst st lt f(3) rn have
    "best ?s' = score ?s' \<and> store ?s' = saveBest (score ?s') (store started_ahead) \<and>
     loadBest (store ?s') = best ?s' \<and> best started_ahead \<le> best ?s'"
    by blast
  with l session_start_ahead(1) inst st lt sc show ?thesis
    by blast
qed

text \<open>
  C6 as stated fails when the store reads as a negative number: with \<^verbatim>\<open>-3\<close> stored,
  the best score is still -3 after a round has started with score 0.
\<close>

theorem negative_stored_best_stays_below_round_score:
  "loadBest tampered = - 3 \<and>
   best_after [KeyDown ''Enter'' 0] (init zeros tampered) = Some (- 3) \<and>
   score_after [KeyDown ''Enter'' 0] (init zeros tampered) = Some 0 \<and>
   max (loadBest tampered) 0 = 0"
proof -
  have l: "loadBest tampered = - 3"
    by (simp add: loadBest_def tampered_def)
  have "keydown ''Enter'' 0 (init zeros tampered) = startGame 0 (init zeros tampered)"
    by (simp add: keydown_Enter_idle init_def gs_def)
  then have "run [KeyDown ''Enter'' 0] (init zeros tampered) =
     Some (Inr ((init zeros tampered)\<lparr>phase := Playing, snake := buildSnake,
        dir := \<lparr>vec.x = 1, vec.y = 0\<rparr>, nextDir := \<lparr>vec.x = 1, vec.y = 0\<rparr>,
        score := 0, particles := [], floatTexts := [], dirLocked := False, lastTick := 0,
        food := \<lparr>food.x = 0, food.y = 0, mush = 0\<rparr>, rng := zeros\<rparr>))"
    by (simp add: startGame_zeros_store)
  then show ?thesis
    using l by (simp add: best_after_def score_after_def init_best)
qed

section \<open>Claims about the particle pool\<close>

text \<open>The backward loop with \<^verbatim>\<open>splice\<close> is a filter over the stepped particles.\<close>

lemma updateParticles_loop_filter:
  "k \<le> length ps \<Longrightarrow>
   updateParticles_loop k ps =
     filter (\<lambda>p. 0 < particle.life p \<and> - 10 \<le> particle.y p) (map stepParticle (take k ps)) @
     drop k ps"
proof (induction k arbitrary: ps)
  case 0
  then show ?case by simp
next
  case (Suc k)
  let ?p = "stepParticle (ps ! k)"
  let ?keep = "\<lambda>p. 0 < particle.life p \<and> - 10 \<le> particle.y p"
  have k: "k < length ps" using Suc.prems by simp
  have tk: "take (Suc k) ps = take k ps @ [ps ! k]"
    using k by (simp add: take_Suc_conv_app_nth)
  show ?case
  proof (cases "particle.life ?p \<le> 0 \<or> particle.y ?p < - 10")
    case True
    let ?ps = "take k ps @ drop (Suc k) ps"
    have len: "k \<le> length ?ps" using k by simp
    have e1: "updateParticles_loop (Suc k) ps = updateParticles_loop k ?ps"
      using True by (simp add: Let_def)
    have e2: "updateParticles_loop k ?ps = filter ?keep (map stepParticle (take k ?ps)) @ drop k ?ps"
      using len by (rule Suc.IH)
    have e3: "take k ?ps = take k ps" using k by simp
    have e4: "drop k ?ps = drop (Suc k) ps" using k by simp
    have e5: "filter ?keep (map stepParticle (take (Suc k) ps)) =
        filter ?keep (map stepParticle (take k ps))"
      unfolding tk using True by auto
    show ?thesis unfolding e1 e2 e3 e4 e5 ..
  next
    case False
    let ?ps = "ps[k := ?p]"
    have len: "k \<le> length ?ps" using k by simp
    have e1: "updateParticles_loop (Suc k) ps = updateParticles_loop k ?ps"
      using False by (simp add: Let_def)
    have e2: "updateParticles_loop k ?ps = filter ?keep (map stepParticle (take k ?ps)) @ drop k ?ps"
      using len by (rule Suc.IH)
    have e3: "take k ?ps = take k ps" by simp
    have e4: "drop k ?ps = ?p # drop (Suc k) ps"
      using k by (simp add: upd_conv_take_nth_drop)
    have e5: "filter ?keep (map stepParticle (take (Suc k) ps)) =
        filter ?keep (map stepParticle (take k ps)) @ [?p]"
      unfolding tk using False by auto
    show ?thesis unfolding e1 e2 e3 e4 e5 by simp
  qed
qed

lemma updateParticles_loop_all:
  "updateParticles_loop (length ps) ps =
     filter (\<lambda>p. 0 < particle.life p \<and> - 10 \<le> particle.y p) (map stepParticle ps)"
  using updateParticles_loop_filter [of "length ps" ps] by simp

text \<open>
  C8, as the code has it. The per-frame update first adds an ambient particle when the
  frame number is a multiple of 5 and the pool holds fewer than \<open>MAX_PART\<close>; it then moves
  every particle of the pool one step and keeps, in order, exactly those whose life after
  the step is positive and whose \<open>y\<close> after the step is at least -10. Neither \<open>x\<close> nor
  the lower edge is tested.
\<close>

theorem updateParticles_keeps_live_below_top:
  "particles (updateParticles s) =
     filter (\<lambda>p. 0 < particle.life p \<and> - 10 \<le> particle.y p)
       (map stepParticle
         (particles
           (if frame s mod 5 = 0 \<and> length (particles s) < MAX_PART
            then spawnParticle (shd (rng s) * of_int SIZE) (of_int SIZE + 5) False
                   (s\<lparr>rng := stl (rng s)\<rparr>)
            else s)))"
proof -
  define s1 where "s1 =
    (if frame s mod 5 = 0 \<and> length (particles s) < MAX_PART
     then spawnParticle (shd (rng s) * of_int SIZE) (of_int SIZE + 5) False
            (s\<lparr>rng := stl (rng s)\<rparr>)
     else s)"
  have "updateParticles s =
      s1\<lparr>particles := updateParticles_loop (length (particles s1)) (particles s1)\<rparr>"
    unfolding updateParticles_def s1_def Let_def by (rule refl)
  then have "particles (updateParticles s) =
      updateParticles_loop (length (particles s1)) (particles s1)"
    by simp
  then show ?thesis
    unfolding updateParticles_loop_all s1_def .
qed

text \<open>
  C8 as stated fails: a particle 100 pixels left of the canvas, with positive life, is
  still in the pool after the update, 104 pixels left of the canvas.
\<close>

theorem particle_left_of_canvas_survives:
  "particles (updateParticles with_drifting) = [drifted] \<and>
   0 < particle.life drifted \<and> \<not> spec_visible_with_margin drifted"
proof -
  have s: "stepParticle drifting = drifted"
    by (simp add: stepParticle_def drifting_def drifted_def)
  have f: "frame with_drifting mod 5 \<noteq> 0" "particles with_drifting = [drifting]"
    by (simp_all add: with_drifting_def)
  have k: "0 < particle.life drifted \<and> - 10 \<le> particle.y drifted"
    by (simp add: drifted_def)
  have "updateParticles with_drifting =
      with_drifting\<lparr>particles :=
        updateParticles_loop (length (particles with_drifting)) (particles with_drifting)\<rparr>"
    unfolding updateParticles_def Let_def using f(1) by simp
  then have "particles (updateParticles with_drifting) =
      updateParticles_loop (length (particles with_drifting)) (particles with_drifting)"
    by simp
  also have "\<dots> = [drifted]"
    unfolding updateParticles_loop_all f(2) using k by (simp add: s)
  finally have "particles (updateParticles with_drifting) = [drifted]" .
  moreover have "\<not> spec_visible_with_margin drifted"
    by (simp add: drifted_def spec_visible_with_margin_def)
  ultimately show ?thesis using k by blast
qed

end
